theory Spec2Isabelle
  imports Main "HOL-Library.Multiset" "HOL-Library.Sublist"
begin

section \<open>Bytes, machine integers and errors\<close>

text \<open>
  A Python \<open>bytes\<close> object is a list of 8-bit characters. A Python \<open>str\<close> is a list of
  characters too, those with a code point below 256; \<open>utf8_encode\<close> is
  \<open>encode('utf-8')\<close> on these, one byte for a character below 128 and two bytes for
  another one. \<open>len\<close> of a \<open>str\<close> counts characters, not bytes.

  The Cython sources declare their counters \<open>uint32_t\<close>. They are natural numbers here,
  and every place where the C arithmetic can wrap is written with \<open>u32\<close> or \<open>u32_sub\<close>.
\<close>

type_synonym bytes = string

definition u32 :: "nat \<Rightarrow> nat" where
  "u32 n = n mod 2 ^ 32"

definition u32_sub :: "nat \<Rightarrow> nat \<Rightarrow> nat" where
  "u32_sub a b = (u32 a + 2 ^ 32 - u32 b) mod 2 ^ 32"

datatype py_error =
    RuntimeError string
  | UnicodeDecodeError
  | LibraryError string
  | OutOfBounds
  | DanglingRead
  | NullDereference

text \<open>
  \<open>PyBytes_AsString\<close> returns a pointer to the object's own storage: the bytes, and one
  terminating NUL after them. A read at a larger index leaves the object; C gives it no
  meaning, and the model stops there with \<open>OutOfBounds\<close>. \<open>DanglingRead\<close> is a read
  through a pointer into a released object that faults. \<open>OutOfBounds\<close>, \<open>DanglingRead\<close>
  and \<open>NullDereference\<close> are faults of the compiled code, the other errors are Python
  exceptions: the \<open>RuntimeError\<close> a Matcher raises with its message, the
  \<open>UnicodeDecodeError\<close> of \<open>decode\<close>, and \<open>LibraryError\<close> for whatever a call outside
  the repository raises.
\<close>

definition byte_at :: "bytes \<Rightarrow> nat \<Rightarrow> char option" where
  "byte_at b i =
     (if i < length b then Some (b ! i)
      else if i = length b then Some (CHR 0x00)
      else None)"

definition utf8_encode :: "string \<Rightarrow> bytes" where
  "utf8_encode s =
     concat (map (\<lambda>c. if of_char c < (128::nat) then [c]
                       else [char_of (192 + of_char c div 64 :: nat),
                             char_of (128 + of_char c mod 64 :: nat)]) s)"

definition one_byte_characters :: "string \<Rightarrow> bool" where
  "one_byte_characters s = list_all (\<lambda>c. of_char c < (128::nat)) s"

section \<open>The simplified ACAutomaton (substring search per pattern)\<close>

record ac_match =
  match_pattern :: string
  match_start :: nat
  match_end :: nat

record sac_automaton =
  sac_patterns :: "string list"
  sac_built :: bool

definition sac_cinit :: sac_automaton where
  "sac_cinit = \<lparr>sac_patterns = [], sac_built = False\<rparr>"

definition sac_build :: "sac_automaton \<Rightarrow> string list \<Rightarrow> sac_automaton" where
  "sac_build a patterns = a\<lparr>sac_patterns := patterns, sac_built := True\<rparr>"

text \<open>
  The loop \<open>for k in range(pattern_len)\<close> with its \<open>break\<close>; \<open>ks\<close> is the rest of the range.

  \<open>pattern_bytes\<close> is \<open>PyBytes_AsString(pattern.encode('utf-8'))\<close>, a pointer into a bytes
  object that is released as soon as the pointer is taken, and \<open>pattern_len\<close> is
  \<open>len(pattern)\<close>, a number of characters. \<open>compare_from\<close>, \<open>scan_positions\<close>,
  \<open>scan_patterns\<close> and \<open>sac_search\<close> read \<open>pattern ! k\<close>: they are the search for patterns
  of one-byte characters while the released block keeps its bytes. The section after
  this one has the search with the reads of \<open>pattern_bytes\<close> left open, of which this one
  is an instance (\<open>sac_search_reading_intact\<close>).
\<close>

fun compare_from :: "bytes \<Rightarrow> string \<Rightarrow> nat \<Rightarrow> nat list \<Rightarrow> py_error + bool" where
  "compare_from text pattern j [] = Inr True"
| "compare_from text pattern j (k # ks) =
     (case byte_at text (u32 (j + k)) of
        None \<Rightarrow> Inl OutOfBounds
      | Some c \<Rightarrow> if c \<noteq> pattern ! k then Inr False else compare_from text pattern j ks)"

text \<open>The loop \<open>for j in range(actual_len - pattern_len + 1)\<close>, from \<open>j\<close> on, appending to \<open>matches\<close>.\<close>

function scan_positions ::
  "bytes \<Rightarrow> string \<Rightarrow> nat \<Rightarrow> nat \<Rightarrow> nat \<Rightarrow> ac_match list \<Rightarrow> py_error + ac_match list" where
  "scan_positions text pattern pattern_len bound j matches =
     (if j < bound then
        (case compare_from text pattern j [0..<pattern_len] of
           Inl e \<Rightarrow> Inl e
         | Inr match_found \<Rightarrow>
             scan_positions text pattern pattern_len bound (Suc j)
               (if match_found
                then matches @ [\<lparr>match_pattern = pattern, match_start = j,
                                  match_end = u32 (j + pattern_len)\<rparr>]
                else matches))
      else Inr matches)"
  by pat_completeness auto
termination
  by (relation "measure (\<lambda>(text, pattern, pattern_len, bound, j, matches). bound - j)") auto

declare scan_positions.simps [simp del]

text \<open>The loop \<open>for i, pattern in enumerate(self.patterns)\<close>.\<close>

fun scan_patterns ::
  "bytes \<Rightarrow> nat \<Rightarrow> string list \<Rightarrow> ac_match list \<Rightarrow> py_error + ac_match list" where
  "scan_patterns text actual_len [] matches = Inr matches"
| "scan_patterns text actual_len (pattern # rest) matches =
     (let pattern_len = u32 (length pattern) in
      case scan_positions text pattern pattern_len
             (u32 (u32_sub actual_len pattern_len + 1)) 0 matches of
        Inl e \<Rightarrow> Inl e
      | Inr matches' \<Rightarrow> scan_patterns text actual_len rest matches')"

definition sac_search :: "sac_automaton \<Rightarrow> bytes \<Rightarrow> nat \<Rightarrow> py_error + ac_match list" where
  "sac_search a text text_len =
     (if \<not> sac_built a then Inr []
      else
        let actual_len = (if text_len > 0 then text_len else u32 (length text))
        in scan_patterns text actual_len (sac_patterns a) [])"

text \<open>
  The occurrences of a pattern in a text, as the specification lists them: the start
  offsets in ascending order, and the records \<open>(p, i, i + |p|)\<close>.
\<close>

definition occurrences :: "bytes \<Rightarrow> string \<Rightarrow> nat list" where
  "occurrences text p = filter (\<lambda>j. take (length p) (drop j text) = p) [0..<Suc (length text) - length p]"

definition occurrence_records :: "bytes \<Rightarrow> string \<Rightarrow> ac_match list" where
  "occurrence_records text p =
     map (\<lambda>j. \<lparr>match_pattern = p, match_start = j, match_end = j + length p\<rparr>) (occurrences text p)"

section \<open>The simplified search with the reads of the pattern left open\<close>

text \<open>
  What a read of \<open>pattern_bytes[k]\<close> finds is not settled by the source: the encoded
  pattern while the allocator leaves the released block alone, other bytes once the
  block was handed out again (to the growing list \<open>matches\<close>, for one), a fault where
  the block was given back to the system. Here the reads are a parameter: \<open>rd i j k\<close> is
  the byte that \<open>pattern_bytes[k]\<close> yields while the pattern with index \<open>i\<close> is compared
  at the start position \<open>j\<close>, and \<open>None\<close> where the read faults. Every such read happens
  once in a call, so every run of \<open>search\<close> is the run for some \<open>rd\<close>. Nothing else
  differs from the definitions above.
\<close>

fun compare_from_reading ::
  "(nat \<Rightarrow> char option) \<Rightarrow> bytes \<Rightarrow> nat \<Rightarrow> nat list \<Rightarrow> py_error + bool" where
  "compare_from_reading rd text j [] = Inr True"
| "compare_from_reading rd text j (k # ks) =
     (case byte_at text (u32 (j + k)) of
        None \<Rightarrow> Inl OutOfBounds
      | Some c \<Rightarrow>
          (case rd k of
             None \<Rightarrow> Inl DanglingRead
           | Some d \<Rightarrow> if c \<noteq> d then Inr False else compare_from_reading rd text j ks))"

function scan_positions_reading ::
  "(nat \<Rightarrow> nat \<Rightarrow> char option) \<Rightarrow> bytes \<Rightarrow> string \<Rightarrow> nat \<Rightarrow> nat \<Rightarrow> nat \<Rightarrow> ac_match list \<Rightarrow>
     py_error + ac_match list" where
  "scan_positions_reading rd text pattern pattern_len bound j matches =
     (if j < bound then
        (case compare_from_reading (rd j) text j [0..<pattern_len] of
           Inl e \<Rightarrow> Inl e
         | Inr match_found \<Rightarrow>
             scan_positions_reading rd text pattern pattern_len bound (Suc j)
               (if match_found
                then matches @ [\<lparr>match_pattern = pattern, match_start = j,
                                  match_end = u32 (j + pattern_len)\<rparr>]
                else matches))
      else Inr matches)"
  by pat_completeness auto
termination
  by (relation "measure (\<lambda>(rd, text, pattern, pattern_len, bound, j, matches). bound - j)") auto

declare scan_positions_reading.simps [simp del]

text \<open>\<open>i\<close> is the index that \<open>enumerate\<close> gives the first pattern of the list.\<close>

fun scan_patterns_reading ::
  "(nat \<Rightarrow> nat \<Rightarrow> nat \<Rightarrow> char option) \<Rightarrow> bytes \<Rightarrow> nat \<Rightarrow> nat \<Rightarrow> string list \<Rightarrow> ac_match list \<Rightarrow>
     py_error + ac_match list" where
  "scan_patterns_reading rd text actual_len i [] matches = Inr matches"
| "scan_patterns_reading rd text actual_len i (pattern # rest) matches =
     (let pattern_len = u32 (length pattern) in
      case scan_positions_reading (rd i) text pattern pattern_len
             (u32 (u32_sub actual_len pattern_len + 1)) 0 matches of
        Inl e \<Rightarrow> Inl e
      | Inr matches' \<Rightarrow> scan_patterns_reading rd text actual_len (Suc i) rest matches')"

definition sac_search_reading ::
  "(nat \<Rightarrow> nat \<Rightarrow> nat \<Rightarrow> char option) \<Rightarrow> sac_automaton \<Rightarrow> bytes \<Rightarrow> nat \<Rightarrow>
     py_error + ac_match list" where
  "sac_search_reading rd a text text_len =
     (if \<not> sac_built a then Inr []
      else
        let actual_len = (if text_len > 0 then text_len else u32 (length text))
        in scan_patterns_reading rd text actual_len 0 (sac_patterns a) [])"

text \<open>The reads on a block that keeps the encoded pattern.\<close>

definition intact_reads :: "string list \<Rightarrow> nat \<Rightarrow> nat \<Rightarrow> nat \<Rightarrow> char option" where
  "intact_reads patterns i j k = byte_at (utf8_encode (patterns ! i)) k"


section \<open>The regex library and the simplified RegexEngine\<close>

text \<open>
  What the engines call outside the repository: \<open>re.compile\<close> (\<open>Inl\<close> is the message of
  \<open>re.error\<close>), \<open>finditer\<close> of a compiled pattern (start, end and \<open>group()\<close> of each
  match object, or \<open>Inl\<close> the exception it raises) and \<open>bytes.decode('utf-8')\<close> (\<open>None\<close>
  where it raises). \<open>finditer\<close> is called with a \<open>str\<close> by one engine and with whatever the
  caller passes by the other: \<open>re_finditer\<close> is the call with a \<open>str\<close>,
  \<open>re_finditer_bytes\<close> the call with a \<open>bytes\<close> object. \<open>re.compile\<close> also raises
  exceptions that are no \<open>re.error\<close> (\<open>OverflowError\<close>, \<open>RecursionError\<close>):
  \<open>re_compile_raises\<close> is the message of such an exception for the patterns that have
  one, and it is read before \<open>re_compile\<close>. The theory takes all of them as a parameter
  and assumes nothing about them.
\<close>

datatype py_text = Str string | Bytes bytes

record 'rx re_module =
  re_compile :: "string \<Rightarrow> string + 'rx"
  re_compile_raises :: "string \<Rightarrow> string option"
  re_finditer :: "'rx \<Rightarrow> string \<Rightarrow> string + (nat \<times> nat \<times> string) list"
  re_finditer_bytes :: "'rx \<Rightarrow> bytes \<Rightarrow> string + (nat \<times> nat \<times> bytes) list"
  decode_utf8 :: "bytes \<Rightarrow> string option"

text \<open>\<open>compiled.finditer(text)\<close> for a \<open>text\<close> of either type.\<close>

definition finditer :: "'rx re_module \<Rightarrow> 'rx \<Rightarrow> py_text \<Rightarrow> string + (nat \<times> nat \<times> py_text) list" where
  "finditer lib compiled t =
     (case t of
        Str s \<Rightarrow> map_sum id (map (\<lambda>(a, b, g). (a, b, Str g))) (re_finditer lib compiled s)
      | Bytes b \<Rightarrow> map_sum id (map (\<lambda>(a, b, g). (a, b, Bytes g))) (re_finditer_bytes lib compiled b))"

record regex_match =
  rm_pattern :: string
  rm_start :: nat
  rm_end :: nat
  rm_matched :: string

text \<open>A compiled pattern object is kept with its \<open>pattern\<close> attribute, the source it was compiled from.\<close>

record 'rx sre_engine =
  sre_patterns :: "string list"
  sre_compiled_patterns :: "(string \<times> 'rx) list"
  sre_built :: bool

definition sre_cinit :: "'rx sre_engine" where
  "sre_cinit = \<lparr>sre_patterns = [], sre_compiled_patterns = [], sre_built = False\<rparr>"

text \<open>
  The loop of \<open>build\<close>: \<open>except re.error: pass\<close> skips a pattern that does not compile.
  \<open>sre_compile_loop\<close> and \<open>sre_build\<close> are the build on patterns for which
  \<open>re.compile\<close> returns or raises \<open>re.error\<close>; \<open>sre_build_raising\<close> below is the build
  on every pattern list.
\<close>

fun sre_compile_loop ::
  "'rx re_module \<Rightarrow> string list \<Rightarrow> (string \<times> 'rx) list \<Rightarrow> (string \<times> 'rx) list" where
  "sre_compile_loop lib [] compiled_patterns = compiled_patterns"
| "sre_compile_loop lib (pattern # rest) compiled_patterns =
     (case re_compile lib pattern of
        Inr compiled \<Rightarrow> sre_compile_loop lib rest (compiled_patterns @ [(pattern, compiled)])
      | Inl msg \<Rightarrow> sre_compile_loop lib rest compiled_patterns)"

definition sre_build :: "'rx re_module \<Rightarrow> 'rx sre_engine \<Rightarrow> string list \<Rightarrow> 'rx sre_engine" where
  "sre_build lib e patterns =
     e\<lparr>sre_patterns := patterns,
       sre_compiled_patterns := sre_compile_loop lib patterns [],
       sre_built := True\<rparr>"

text \<open>
  \<open>build\<close> on every pattern list. An exception of \<open>re.compile\<close> that is no \<open>re.error\<close>
  passes the \<open>except\<close> clause and leaves \<open>build\<close>: \<open>patterns\<close> is assigned,
  \<open>compiled_patterns\<close> holds what was appended so far, and \<open>built\<close> is not set. The
  result is the exception, if there is one, and the engine as the call leaves it.
\<close>

fun sre_compile_loop_raising ::
  "'rx re_module \<Rightarrow> string list \<Rightarrow> (string \<times> 'rx) list \<Rightarrow> py_error option \<times> (string \<times> 'rx) list" where
  "sre_compile_loop_raising lib [] compiled_patterns = (None, compiled_patterns)"
| "sre_compile_loop_raising lib (pattern # rest) compiled_patterns =
     (case re_compile_raises lib pattern of
        Some x \<Rightarrow> (Some (LibraryError x), compiled_patterns)
      | None \<Rightarrow>
          (case re_compile lib pattern of
             Inr compiled \<Rightarrow>
               sre_compile_loop_raising lib rest (compiled_patterns @ [(pattern, compiled)])
           | Inl msg \<Rightarrow> sre_compile_loop_raising lib rest compiled_patterns))"

definition sre_build_raising ::
  "'rx re_module \<Rightarrow> 'rx sre_engine \<Rightarrow> string list \<Rightarrow> py_error option \<times> 'rx sre_engine" where
  "sre_build_raising lib e patterns =
     (case sre_compile_loop_raising lib patterns [] of
        (Some x, compiled_patterns) \<Rightarrow>
          (Some x, e\<lparr>sre_patterns := patterns, sre_compiled_patterns := compiled_patterns\<rparr>)
      | (None, compiled_patterns) \<Rightarrow>
          (None, e\<lparr>sre_patterns := patterns, sre_compiled_patterns := compiled_patterns,
                    sre_built := True\<rparr>))"

definition found_records :: "string \<Rightarrow> (nat \<times> nat \<times> string) list \<Rightarrow> regex_match list" where
  "found_records pattern found =
     map (\<lambda>(s, e, g). \<lparr>rm_pattern = pattern, rm_start = s, rm_end = e, rm_matched = g\<rparr>) found"

fun sre_match_loop ::
  "'rx re_module \<Rightarrow> string \<Rightarrow> (string \<times> 'rx) list \<Rightarrow> regex_match list \<Rightarrow> py_error + regex_match list" where
  "sre_match_loop lib text_str [] matches = Inr matches"
| "sre_match_loop lib text_str ((pattern, compiled) # rest) matches =
     (case re_finditer lib compiled text_str of
        Inl e \<Rightarrow> Inl (LibraryError e)
      | Inr found \<Rightarrow> sre_match_loop lib text_str rest (matches @ found_records pattern found))"

definition sre_match ::
  "'rx re_module \<Rightarrow> 'rx sre_engine \<Rightarrow> bytes \<Rightarrow> nat \<Rightarrow> py_error + regex_match list" where
  "sre_match lib e text text_len =
     (if \<not> sre_built e then Inr []
      else
        case decode_utf8 lib text of
          None \<Rightarrow> Inl UnicodeDecodeError
        | Some text_str \<Rightarrow> sre_match_loop lib text_str (sre_compiled_patterns e) [])"

section \<open>The RegexEngine with diagnostics\<close>

text \<open>
  \<open>_compile_patterns\<close> keeps one entry per pattern, \<open>None\<close> for a pattern that does not
  compile, and prints a line for it; \<open>printed\<close> collects the lines. The dictionary
  \<open>pattern_to_id\<close> maps a pattern to its last index. \<open>fre_compile_loop\<close> and \<open>fre_build\<close>
  are the build on patterns for which \<open>re.compile\<close> returns or raises \<open>re.error\<close>;
  \<open>fre_build_raising\<close> is the build on every pattern list.
\<close>

record 'rx fre_engine =
  fre_compiled_patterns :: "'rx option list"
  fre_pattern_strings :: "string list"
  fre_pattern_to_id :: "string \<rightharpoonup> nat"

definition fre_cinit :: "'rx fre_engine" where
  "fre_cinit = \<lparr>fre_compiled_patterns = [], fre_pattern_strings = [], fre_pattern_to_id = Map.empty\<rparr>"

fun fre_compile_loop ::
  "'rx re_module \<Rightarrow> string list \<Rightarrow> 'rx option list \<times> string list \<Rightarrow> 'rx option list \<times> string list" where
  "fre_compile_loop lib [] (compiled_patterns, printed) = (compiled_patterns, printed)"
| "fre_compile_loop lib (pattern # rest) (compiled_patterns, printed) =
     (case re_compile lib pattern of
        Inr compiled \<Rightarrow> fre_compile_loop lib rest (compiled_patterns @ [Some compiled], printed)
      | Inl msg \<Rightarrow>
          fre_compile_loop lib rest
            (compiled_patterns @ [None],
             printed @ [''Error compiling pattern '' @ pattern @ '': '' @ msg]))"

fun enumerate_from :: "nat \<Rightarrow> 'a list \<Rightarrow> (nat \<times> 'a) list" where
  "enumerate_from i [] = []"
| "enumerate_from i (x # xs) = (i, x) # enumerate_from (Suc i) xs"

text \<open>\<open>build\<close>: the engine, and the lines printed.\<close>

definition fre_build ::
  "'rx re_module \<Rightarrow> 'rx fre_engine \<Rightarrow> string list \<Rightarrow> 'rx fre_engine \<times> string list" where
  "fre_build lib e patterns =
     (case fre_compile_loop lib patterns ([], []) of
        (compiled_patterns, printed) \<Rightarrow>
          (e\<lparr>fre_pattern_strings := patterns,
             fre_pattern_to_id := map_of (rev (map (\<lambda>(i, p). (p, i)) (enumerate_from 0 patterns))),
             fre_compiled_patterns := compiled_patterns\<rparr>,
           printed))"

text \<open>
  \<open>build\<close> on every pattern list: the exception that left it, if there is one, the
  engine as the call leaves it, and the lines printed.
\<close>

fun fre_compile_loop_raising ::
  "'rx re_module \<Rightarrow> string list \<Rightarrow> 'rx option list \<times> string list \<Rightarrow>
     py_error option \<times> 'rx option list \<times> string list" where
  "fre_compile_loop_raising lib [] (compiled_patterns, printed) = (None, compiled_patterns, printed)"
| "fre_compile_loop_raising lib (pattern # rest) (compiled_patterns, printed) =
     (case re_compile_raises lib pattern of
        Some x \<Rightarrow> (Some (LibraryError x), compiled_patterns, printed)
      | None \<Rightarrow>
          (case re_compile lib pattern of
             Inr compiled \<Rightarrow>
               fre_compile_loop_raising lib rest (compiled_patterns @ [Some compiled], printed)
           | Inl msg \<Rightarrow>
               fre_compile_loop_raising lib rest
                 (compiled_patterns @ [None],
                  printed @ [''Error compiling pattern '' @ pattern @ '': '' @ msg])))"

definition fre_build_raising ::
  "'rx re_module \<Rightarrow> 'rx fre_engine \<Rightarrow> string list \<Rightarrow>
     py_error option \<times> 'rx fre_engine \<times> string list" where
  "fre_build_raising lib e patterns =
     (case fre_compile_loop_raising lib patterns ([], []) of
        (raised, compiled_patterns, printed) \<Rightarrow>
          (raised,
           e\<lparr>fre_pattern_strings := patterns,
             fre_pattern_to_id := map_of (rev (map (\<lambda>(i, p). (p, i)) (enumerate_from 0 patterns))),
             fre_compiled_patterns := compiled_patterns\<rparr>,
           printed))"

text \<open>\<open>match\<close> goes to \<open>_match_single\<close> or \<open>_match_all\<close>; both return their empty list.\<close>

definition fre_match :: "'rx fre_engine \<Rightarrow> bytes \<Rightarrow> int \<Rightarrow> regex_match list" where
  "fre_match e text pattern_id = (if pattern_id \<ge> 0 then [] else [])"

text \<open>
  \<open>_match_with_python_re\<close> without a \<open>pattern_id\<close>: every compiled pattern in turn, with
  the source string at the same index. \<open>text_str\<close> is what the caller passes, a \<open>str\<close> or
  a \<open>bytes\<close> object, and goes to \<open>finditer\<close> as it is. The \<open>encode\<close> of the first
  statement cannot raise on the characters of \<open>string\<close>, and its result is not used.
\<close>

record python_re_match =
  pm_type :: string
  pm_pattern :: string
  pm_start :: nat
  pm_end :: nat
  pm_matched_text :: py_text

definition python_records :: "string \<Rightarrow> (nat \<times> nat \<times> py_text) list \<Rightarrow> python_re_match list" where
  "python_records pattern found =
     map (\<lambda>(s, e, g). \<lparr>pm_type = ''regex'', pm_pattern = pattern, pm_start = s, pm_end = e,
                        pm_matched_text = g\<rparr>) found"

fun fre_python_loop ::
  "'rx re_module \<Rightarrow> py_text \<Rightarrow> string list \<Rightarrow> (nat \<times> 'rx option) list \<Rightarrow> python_re_match list \<Rightarrow>
     py_error + python_re_match list" where
  "fre_python_loop lib text_str pattern_strings [] matches = Inr matches"
| "fre_python_loop lib text_str pattern_strings ((i, None) # rest) matches =
     fre_python_loop lib text_str pattern_strings rest matches"
| "fre_python_loop lib text_str pattern_strings ((i, Some compiled) # rest) matches =
     (case finditer lib compiled text_str of
        Inl e \<Rightarrow> Inl (LibraryError e)
      | Inr found \<Rightarrow>
          fre_python_loop lib text_str pattern_strings rest
            (matches @ python_records (pattern_strings ! i) found))"

definition fre_match_with_python_re ::
  "'rx re_module \<Rightarrow> 'rx fre_engine \<Rightarrow> py_text \<Rightarrow> py_error + python_re_match list" where
  "fre_match_with_python_re lib e text_str =
     fre_python_loop lib text_str (fre_pattern_strings e)
       (enumerate_from 0 (fre_compiled_patterns e)) []"

text \<open>
  What a scan over a pattern list is to report: the matches of every pattern that
  compiles, pattern by pattern in list order; the first exception of a \<open>finditer\<close> ends
  the scan. The same for the records of \<open>_match_with_python_re\<close>, and the lines
  \<open>_compile_patterns\<close> is to print.
\<close>

fun valid_pattern_matches ::
  "'rx re_module \<Rightarrow> string \<Rightarrow> string list \<Rightarrow> py_error + regex_match list" where
  "valid_pattern_matches lib text_str [] = Inr []"
| "valid_pattern_matches lib text_str (p # ps) =
     (case re_compile lib p of
        Inl msg \<Rightarrow> valid_pattern_matches lib text_str ps
      | Inr rx \<Rightarrow>
          (case re_finditer lib rx text_str of
             Inl e \<Rightarrow> Inl (LibraryError e)
           | Inr found \<Rightarrow>
               (case valid_pattern_matches lib text_str ps of
                  Inl e \<Rightarrow> Inl e
                | Inr rest \<Rightarrow> Inr (found_records p found @ rest))))"

fun valid_pattern_python_matches ::
  "'rx re_module \<Rightarrow> py_text \<Rightarrow> string list \<Rightarrow> py_error + python_re_match list" where
  "valid_pattern_python_matches lib text_str [] = Inr []"
| "valid_pattern_python_matches lib text_str (p # ps) =
     (case re_compile lib p of
        Inl msg \<Rightarrow> valid_pattern_python_matches lib text_str ps
      | Inr rx \<Rightarrow>
          (case finditer lib rx text_str of
             Inl e \<Rightarrow> Inl (LibraryError e)
           | Inr found \<Rightarrow>
               (case valid_pattern_python_matches lib text_str ps of
                  Inl e \<Rightarrow> Inl e
                | Inr rest \<Rightarrow> Inr (python_records p found @ rest))))"

definition compile_diagnostics :: "'rx re_module \<Rightarrow> string list \<Rightarrow> string list" where
  "compile_diagnostics lib patterns =
     concat (map (\<lambda>p. case re_compile lib p of
                         Inl msg \<Rightarrow> [''Error compiling pattern '' @ p @ '': '' @ msg]
                       | Inr rx \<Rightarrow> []) patterns)"

text \<open>
  The exception that is to leave a build: that of the first pattern on which
  \<open>re.compile\<close> raises something other than \<open>re.error\<close>, and none where there is no
  such pattern.
\<close>

fun compile_exception :: "'rx re_module \<Rightarrow> string list \<Rightarrow> py_error option" where
  "compile_exception lib [] = None"
| "compile_exception lib (p # ps) =
     (case re_compile_raises lib p of
        Some x \<Rightarrow> Some (LibraryError x)
      | None \<Rightarrow> compile_exception lib ps)"

section \<open>The ACAutomaton with a trie: search\<close>

text \<open>
  The nodes live in a store from addresses to nodes; a pointer is an address, or \<open>None\<close>
  for NULL. The child table has 256 entries and is indexed with \<open><uint32_t>c\<close> for a
  \<open>char c\<close>: where \<open>char\<close> is signed, a byte from \<open>0x80\<close> on is negative and its index is
  beyond the table.
\<close>

record ac_node =
  node_children :: "nat \<Rightarrow> nat option"
  node_fail :: "nat option"
  node_output :: "nat list"
  node_output_count :: nat
  node_is_final :: nat
  node_character :: char

record trie_match =
  tm_start :: nat
  tm_end :: nat
  tm_pattern_id :: nat
  tm_pattern :: string

record trie_automaton =
  trie_nodes :: "nat \<rightharpoonup> ac_node"
  trie_root :: nat
  trie_node_count :: nat
  trie_patterns :: "bytes list"
  trie_pattern_to_id :: "bytes \<rightharpoonup> nat"

definition child_index :: "char \<Rightarrow> nat" where
  "child_index c = (if of_char c < (128::nat) then of_char c else 2 ^ 32 - 256 + of_char c)"

definition child_at :: "ac_node \<Rightarrow> nat \<Rightarrow> py_error + nat option" where
  "child_at node idx = (if idx < 256 then Inr (node_children node idx) else Inl OutOfBounds)"

text \<open>
  The loop \<open>while current != self.root and not current.children[c]: current = current.fail\<close>.
  It need not end on an arbitrary store: \<open>None\<close> is a run that does not return.
\<close>

partial_function (option) follow_fail ::
  "(nat \<rightharpoonup> ac_node) \<Rightarrow> nat \<Rightarrow> nat \<Rightarrow> nat \<Rightarrow> (py_error + nat) option" where
  "follow_fail nodes root idx current =
     (if current = root then Some (Inr current)
      else
        case nodes current of
          None \<Rightarrow> Some (Inl NullDereference)
        | Some node \<Rightarrow>
            (case child_at node idx of
               Inl e \<Rightarrow> Some (Inl e)
             | Inr (Some child) \<Rightarrow> Some (Inr current)
             | Inr None \<Rightarrow>
                 (case node_fail node of
                    None \<Rightarrow> Some (Inl NullDereference)
                  | Some f \<Rightarrow> follow_fail nodes root idx f)))"

text \<open>
  The loop \<open>for i in range(text_len)\<close> of \<open>_search\<close>. The body of
  \<open>if current.is_final\<close> is \<open>pass\<close>: \<open>matches\<close> is handed on as it is.
\<close>

fun trie_search_loop ::
  "(nat \<rightharpoonup> ac_node) \<Rightarrow> nat \<Rightarrow> nat \<Rightarrow> bytes \<Rightarrow> trie_match list \<Rightarrow>
     (py_error + trie_match list) option" where
  "trie_search_loop nodes root current [] matches = Some (Inr matches)"
| "trie_search_loop nodes root current (c # cs) matches =
     (case follow_fail nodes root (child_index c) current of
        None \<Rightarrow> None
      | Some (Inl e) \<Rightarrow> Some (Inl e)
      | Some (Inr current) \<Rightarrow>
          (case nodes current of
             None \<Rightarrow> Some (Inl NullDereference)
           | Some node \<Rightarrow>
               (case child_at node (child_index c) of
                  Inl e \<Rightarrow> Some (Inl e)
                | Inr child \<Rightarrow>
                    (let current = (case child of Some n \<Rightarrow> n | None \<Rightarrow> current)
                     in case nodes current of
                          None \<Rightarrow> Some (Inl NullDereference)
                        | Some node \<Rightarrow>
                            trie_search_loop nodes root current cs
                              (if node_is_final node \<noteq> 0 then matches else matches)))))"

definition trie_search :: "trie_automaton \<Rightarrow> bytes \<Rightarrow> (py_error + trie_match list) option" where
  "trie_search a text =
     trie_search_loop (trie_nodes a) (trie_root a) (trie_root a) (take (u32 (length text)) text) []"

text \<open>\<open>__cinit__\<close>: one node, the root, at address 0, as \<open>_create_node\<close> leaves it.\<close>

definition create_node :: ac_node where
  "create_node =
     \<lparr>node_children = (\<lambda>i. None), node_fail = None, node_output = [], node_output_count = 0,
      node_is_final = 0, node_character = CHR 0x00\<rparr>"

definition trie_cinit :: trie_automaton where
  "trie_cinit =
     \<lparr>trie_nodes = [0 \<mapsto> create_node], trie_root = 0, trie_node_count = 1,
      trie_patterns = [], trie_pattern_to_id = Map.empty\<rparr>"

section \<open>A small regex library for the scenarios\<close>

text \<open>
  An instance of \<open>re_module\<close> to run concrete scenarios with. Its patterns are literal
  strings: a pattern without parentheses compiles to itself and matches its occurrences
  in a \<open>str\<close> from left to right without overlap, and a pattern with a parenthesis does
  not compile. Where Python's \<open>re\<close> is met it is followed: the message for the pattern
  \<open>(\<close>, the \<open>OverflowError\<close> for \<open>a{99999999999}\<close>, and the \<open>TypeError\<close> of a pattern
  compiled from a \<open>str\<close> that is handed a \<open>bytes\<close> object.
\<close>

function find_literal :: "string \<Rightarrow> string \<Rightarrow> nat \<Rightarrow> (nat \<times> nat \<times> string) list" where
  "find_literal p [] pos = []"
| "find_literal p (c # cs) pos =
     (if p \<noteq> [] \<and> take (length p) (c # cs) = p
      then (pos, pos + length p, p) # find_literal p (drop (length p) (c # cs)) (pos + length p)
      else find_literal p cs (Suc pos))"
  by pat_completeness auto
termination
  by (relation "measure (\<lambda>(p, text, pos). length text)") auto

definition literal_re :: "string re_module" where
  "literal_re =
     \<lparr>re_compile =
        (\<lambda>p. if p = ''(''
             then Inl ''missing ), unterminated subpattern at position 0''
             else if p = [] \<or> CHR ''('' \<in> set p \<or> CHR '')'' \<in> set p
             then Inl ''not a literal pattern''
             else Inr p),
      re_compile_raises =
        (\<lambda>p. if p = ''a{99999999999}'' then Some ''the repetition number is too large''
             else None),
      re_finditer = (\<lambda>rx text. Inr (find_literal rx text 0)),
      re_finditer_bytes =
        (\<lambda>rx text. Inl ''cannot use a string pattern on a bytes-like object''),
      decode_utf8 = (\<lambda>b. Some b)\<rparr>"

section \<open>The circular StreamBuffer\<close>

text \<open>
  The \<open>CircularBuffer\<close> struct of the class, field by field (\<open>self.buffer.size\<close> is
  \<open>buf_size\<close>), and \<open>default_capacity\<close>. A NULL \<open>data\<close> pointer is \<open>None\<close>.
  \<open>PyMem_Malloc\<close> is taken to succeed.
\<close>

record stream_buffer =
  buf_data :: "bytes option"
  buf_size :: nat
  buf_capacity :: nat
  buf_read_pos :: nat
  buf_write_pos :: nat
  buf_is_full :: nat
  default_capacity :: nat

definition stream_buffer_cinit :: stream_buffer where
  "stream_buffer_cinit =
     \<lparr>buf_data = None, buf_size = 0, buf_capacity = 0, buf_read_pos = 0,
      buf_write_pos = 0, buf_is_full = 0, default_capacity = 8192\<rparr>"

definition free_buffer :: "stream_buffer \<Rightarrow> stream_buffer" where
  "free_buffer s =
     (if buf_data s \<noteq> None
      then s\<lparr>buf_data := None, buf_capacity := 0, buf_size := 0, buf_read_pos := 0,
             buf_write_pos := 0, buf_is_full := 0\<rparr>
      else s)"

definition init_buffer :: "stream_buffer \<Rightarrow> nat \<Rightarrow> stream_buffer" where
  "init_buffer s capacity =
     s\<lparr>buf_data := Some (replicate capacity (CHR 0x00)), buf_capacity := capacity,
       buf_size := 0, buf_read_pos := 0, buf_write_pos := 0, buf_is_full := 0\<rparr>"

text \<open>\<open>capacity\<close> is a \<open>uint32_t\<close> parameter: a caller's value is below \<open>2 ^ 32\<close>.\<close>

definition initialize :: "stream_buffer \<Rightarrow> nat \<Rightarrow> stream_buffer" where
  "initialize s capacity =
     (let capacity = (if capacity = 0 then default_capacity s else capacity)
      in init_buffer (free_buffer s) capacity)"

definition get_available_space :: "stream_buffer \<Rightarrow> nat" where
  "get_available_space s =
     (if buf_data s = None then 0 else u32_sub (buf_capacity s) (buf_size s))"

definition get_available_data :: "stream_buffer \<Rightarrow> nat" where
  "get_available_data s = (if buf_data s = None then 0 else buf_size s)"

definition get_capacity :: "stream_buffer \<Rightarrow> nat" where
  "get_capacity s = buf_capacity s"

text \<open>\<open>memcpy(dst + offset, src, n)\<close> on a destination that holds \<open>offset + n\<close> bytes.\<close>

definition memcpy :: "bytes \<Rightarrow> nat \<Rightarrow> bytes \<Rightarrow> nat \<Rightarrow> bytes" where
  "memcpy dst offset src n = take offset dst @ take n src @ drop (offset + n) dst"

text \<open>\<open>_write\<close>: the new state and the number of bytes written.\<close>

definition internal_write :: "stream_buffer \<Rightarrow> bytes \<Rightarrow> nat \<Rightarrow> stream_buffer \<times> nat" where
  "internal_write s input data_len =
     (case buf_data s of
        None \<Rightarrow> (s, 0)
      | Some d \<Rightarrow>
          if data_len = 0 then (s, 0)
          else
            let available_space = get_available_space s;
                bytes_to_write = (if data_len \<le> available_space then data_len else available_space)
            in
              if bytes_to_write = 0 then (s, 0)
              else
                let first_chunk = u32_sub (buf_capacity s) (buf_write_pos s);
                    first_chunk = (if first_chunk > bytes_to_write then bytes_to_write else first_chunk);
                    d1 = memcpy d (buf_write_pos s) input first_chunk;
                    d2 = (if first_chunk < bytes_to_write
                          then memcpy d1 0 (drop first_chunk input) (u32_sub bytes_to_write first_chunk)
                          else d1);
                    new_size = u32 (buf_size s + bytes_to_write)
                in
                  (s\<lparr>buf_data := Some d2,
                     buf_write_pos := u32 (buf_write_pos s + bytes_to_write) mod buf_capacity s,
                     buf_size := new_size,
                     buf_is_full := (if new_size = buf_capacity s then 1 else buf_is_full s)\<rparr>,
                   bytes_to_write))"

text \<open>\<open>write\<close>; \<open>len(data)\<close> is stored in a \<open>uint32_t\<close>.\<close>

definition write_data :: "stream_buffer \<Rightarrow> bytes \<Rightarrow> stream_buffer \<times> nat" where
  "write_data s input = internal_write s input (u32 (length input))"

text \<open>
  \<open>_peek\<close> and \<open>_read\<close> fill the caller's \<open>output\<close> array: the bytes copied, and their
  number. \<open>_read\<close> also moves the read position.
\<close>

definition internal_peek :: "stream_buffer \<Rightarrow> nat \<Rightarrow> bytes \<times> nat" where
  "internal_peek s output_len =
     (case buf_data s of
        None \<Rightarrow> ([], 0)
      | Some d \<Rightarrow>
          if output_len = 0 then ([], 0)
          else
            let available_data = get_available_data s;
                bytes_to_peek = (if output_len \<le> available_data then output_len else available_data)
            in
              if bytes_to_peek = 0 then ([], 0)
              else
                let first_chunk = u32_sub (buf_capacity s) (buf_read_pos s);
                    first_chunk = (if first_chunk > bytes_to_peek then bytes_to_peek else first_chunk);
                    out1 = take first_chunk (drop (buf_read_pos s) d);
                    out2 = (if first_chunk < bytes_to_peek
                            then out1 @ take (u32_sub bytes_to_peek first_chunk) d
                            else out1)
                in (out2, bytes_to_peek))"

definition internal_read :: "stream_buffer \<Rightarrow> nat \<Rightarrow> stream_buffer \<times> bytes \<times> nat" where
  "internal_read s output_len =
     (case buf_data s of
        None \<Rightarrow> (s, [], 0)
      | Some d \<Rightarrow>
          if output_len = 0 then (s, [], 0)
          else
            let available_data = get_available_data s;
                bytes_to_read = (if output_len \<le> available_data then output_len else available_data)
            in
              if bytes_to_read = 0 then (s, [], 0)
              else
                let first_chunk = u32_sub (buf_capacity s) (buf_read_pos s);
                    first_chunk = (if first_chunk > bytes_to_read then bytes_to_read else first_chunk);
                    out1 = take first_chunk (drop (buf_read_pos s) d);
                    out2 = (if first_chunk < bytes_to_read
                            then out1 @ take (u32_sub bytes_to_read first_chunk) d
                            else out1)
                in
                  (s\<lparr>buf_read_pos := u32 (buf_read_pos s + bytes_to_read) mod buf_capacity s,
                     buf_size := u32_sub (buf_size s) bytes_to_read,
                     buf_is_full := 0\<rparr>,
                   out2, bytes_to_read))"

text \<open>
  \<open>read\<close> and \<open>peek\<close>: \<open>len\<close> is the \<open>uint32_t\<close> parameter \<open>length\<close> (below \<open>2 ^ 32\<close>), and
  \<open>PyBytes_FromStringAndSize(output, n)\<close> is the first \<open>n\<close> bytes of \<open>output\<close>.
\<close>

definition read :: "stream_buffer \<Rightarrow> nat \<Rightarrow> stream_buffer \<times> bytes" where
  "read s len =
     (let available_data = get_available_data s;
          bytes_to_read = (if len > 0 \<and> len \<le> available_data then len else available_data)
      in
        if bytes_to_read = 0 then (s, [])
        else
          case internal_read s bytes_to_read of
            (s', output, bytes_read) \<Rightarrow>
              (s', if bytes_read > 0 then take bytes_read output else []))"

definition peek :: "stream_buffer \<Rightarrow> nat \<Rightarrow> bytes" where
  "peek s len =
     (let available_data = get_available_data s;
          bytes_to_peek = (if len > 0 \<and> len \<le> available_data then len else available_data)
      in
        if bytes_to_peek = 0 then []
        else
          case internal_peek s bytes_to_peek of
            (output, bytes_peeked) \<Rightarrow> if bytes_peeked > 0 then take bytes_peeked output else [])"

definition clear :: "stream_buffer \<Rightarrow> stream_buffer" where
  "clear s =
     s\<lparr>buf_data := map_option (\<lambda>d. replicate (buf_capacity s) (CHR 0x00)) (buf_data s),
       buf_size := 0, buf_read_pos := 0, buf_write_pos := 0, buf_is_full := 0\<rparr>"

text \<open>The number of bytes \<open>_write\<close> and \<open>_read\<close> settle on: the request, cut to what fits.\<close>

definition to_write :: "stream_buffer \<Rightarrow> nat \<Rightarrow> nat" where
  "to_write s data_len = (if data_len \<le> get_available_space s then data_len else get_available_space s)"

definition to_read :: "stream_buffer \<Rightarrow> nat \<Rightarrow> nat" where
  "to_read s output_len = (if output_len \<le> get_available_data s then output_len else get_available_data s)"

text \<open>The two copies of \<open>_write\<close> into the array, and of \<open>_read\<close> and \<open>_peek\<close> out of it.\<close>

definition copied_in :: "bytes \<Rightarrow> nat \<Rightarrow> nat \<Rightarrow> bytes \<Rightarrow> nat \<Rightarrow> bytes" where
  "copied_in d capacity pos input n =
     (let first_chunk = u32_sub capacity pos;
          first_chunk = (if first_chunk > n then n else first_chunk);
          d1 = memcpy d pos input first_chunk
      in if first_chunk < n
         then memcpy d1 0 (drop first_chunk input) (u32_sub n first_chunk)
         else d1)"

definition copied_out :: "bytes \<Rightarrow> nat \<Rightarrow> nat \<Rightarrow> nat \<Rightarrow> bytes" where
  "copied_out d capacity pos n =
     (let first_chunk = u32_sub capacity pos;
          first_chunk = (if first_chunk > n then n else first_chunk);
          out1 = take first_chunk (drop pos d)
      in if first_chunk < n
         then out1 @ take (u32_sub n first_chunk) d
         else out1)"

text \<open>
  The state invariant of the specification. The difference of the two positions is taken
  in the integers.
\<close>

definition buffer_inv :: "stream_buffer \<Rightarrow> bool" where
  "buffer_inv s \<longleftrightarrow>
     buf_read_pos s < buf_capacity s \<and> buf_write_pos s < buf_capacity s \<and>
     buf_size s \<le> buf_capacity s \<and>
     (if buf_size s < buf_capacity s
      then (int (buf_write_pos s) - int (buf_read_pos s)) mod int (buf_capacity s) = int (buf_size s)
      else buf_write_pos s = buf_read_pos s)"

text \<open>An allocated buffer: the array holds \<open>buf_capacity\<close> bytes.\<close>

definition buffer_wf :: "stream_buffer \<Rightarrow> bool" where
  "buffer_wf s \<longleftrightarrow> (\<exists>d. buf_data s = Some d \<and> length d = buf_capacity s)"

text \<open>The unread bytes, oldest first: \<open>buf_size\<close> bytes from \<open>buf_read_pos\<close> on, around the end.\<close>

definition contents :: "stream_buffer \<Rightarrow> bytes" where
  "contents s =
     (case buf_data s of
        None \<Rightarrow> []
      | Some d \<Rightarrow> map (\<lambda>i. d ! ((buf_read_pos s + i) mod buf_capacity s)) [0..<buf_size s])"

section \<open>The simplified StreamBuffer\<close>

record simple_buffer =
  sb_buffer :: bytes
  sb_position :: nat

definition simple_buffer_cinit :: simple_buffer where
  "simple_buffer_cinit = \<lparr>sb_buffer = [], sb_position = 0\<rparr>"

definition sb_reset :: "simple_buffer \<Rightarrow> simple_buffer" where
  "sb_reset b = b\<lparr>sb_buffer := [], sb_position := 0\<rparr>"

definition sb_append :: "simple_buffer \<Rightarrow> bytes \<Rightarrow> simple_buffer" where
  "sb_append b input = b\<lparr>sb_buffer := sb_buffer b @ input\<rparr>"

definition sb_get_data :: "simple_buffer \<Rightarrow> bytes" where
  "sb_get_data b = sb_buffer b"

section \<open>The Matcher over the simplified engines\<close>

text \<open>
  This Matcher calls \<open>search(chunk, chunk_len)\<close>, \<open>match(chunk, chunk_len)\<close> and
  \<open>stream_buffer.reset()\<close>: the signatures of the simplified automaton, the simplified
  regex engine and the simplified buffer. An engine that was not created is \<open>None\<close>.
\<close>

record match_result =
  mr_type :: string
  mr_pattern :: string
  mr_start :: nat
  mr_end :: nat
  mr_matched :: "string option"

record 'rx smatcher =
  sm_ac_patterns :: "string list"
  sm_regex_patterns :: "string list"
  sm_streaming_mode :: bool
  sm_total_matches :: nat
  sm_ac_automaton :: "sac_automaton option"
  sm_regex_engine :: "'rx sre_engine option"
  sm_stream_buffer :: "simple_buffer option"

text \<open>
  \<open>build\<close>; an argument left out or passed as \<open>None\<close> is \<open>None\<close>. The regex engine is
  built with \<open>sre_build\<close>: the Matcher is modelled for regex lists on which \<open>re.compile\<close>
  raises nothing but \<open>re.error\<close>, and its automaton searches with \<open>sac_search\<close>.
\<close>

definition smatcher_build ::
  "'rx re_module \<Rightarrow> 'rx smatcher \<Rightarrow> string list option \<Rightarrow> string list option \<Rightarrow> 'rx smatcher" where
  "smatcher_build lib m patterns regex =
     (let m = (case patterns of None \<Rightarrow> m | Some ps \<Rightarrow> m\<lparr>sm_ac_patterns := ps\<rparr>);
          m = (case regex of None \<Rightarrow> m | Some rs \<Rightarrow> m\<lparr>sm_regex_patterns := rs\<rparr>);
          m = (if sm_ac_patterns m \<noteq> []
               then m\<lparr>sm_ac_automaton := Some (sac_build sac_cinit (sm_ac_patterns m))\<rparr>
               else m);
          m = (if sm_regex_patterns m \<noteq> []
               then m\<lparr>sm_regex_engine := Some (sre_build lib sre_cinit (sm_regex_patterns m))\<rparr>
               else m)
      in if sm_streaming_mode m \<and> sm_stream_buffer m = None
         then m\<lparr>sm_stream_buffer := Some simple_buffer_cinit\<rparr>
         else m)"

text \<open>\<open>__cinit__\<close>: \<open>patterns or []\<close>, \<open>regex or []\<close>, then \<open>build\<close>.\<close>

definition smatcher_cinit ::
  "'rx re_module \<Rightarrow> string list option \<Rightarrow> string list option \<Rightarrow> bool \<Rightarrow> 'rx smatcher" where
  "smatcher_cinit lib patterns regex streaming =
     (let ac_patterns = (case patterns of None \<Rightarrow> [] | Some ps \<Rightarrow> ps);
          regex_patterns = (case regex of None \<Rightarrow> [] | Some rs \<Rightarrow> rs)
      in smatcher_build lib
           \<lparr>sm_ac_patterns = ac_patterns, sm_regex_patterns = regex_patterns,
            sm_streaming_mode = streaming, sm_total_matches = 0, sm_ac_automaton = None,
            sm_regex_engine = None, sm_stream_buffer = None\<rparr>
           (Some ac_patterns) (Some regex_patterns))"

definition combine_matches :: "ac_match list \<Rightarrow> regex_match list \<Rightarrow> match_result list" where
  "combine_matches ac_matches regex_matches =
     map (\<lambda>m. \<lparr>mr_type = ''ac'', mr_pattern = match_pattern m, mr_start = match_start m,
                 mr_end = match_end m, mr_matched = None\<rparr>) ac_matches
     @ map (\<lambda>m. \<lparr>mr_type = ''regex'', mr_pattern = rm_pattern m, mr_start = rm_start m,
                   mr_end = rm_end m, mr_matched = Some (rm_matched m)\<rparr>) regex_matches"

text \<open>
  \<open>_process_chunk\<close> holds the chunk as a \<open>char*\<close>. Passed to \<open>search\<close> and \<open>match\<close>,
  whose parameter is \<open>bytes\<close>, it becomes a new bytes object that ends before the first
  NUL byte.
\<close>

definition c_string :: "bytes \<Rightarrow> bytes" where
  "c_string chunk = takeWhile (\<lambda>c. c \<noteq> CHR 0x00) chunk"

definition process_chunk ::
  "'rx re_module \<Rightarrow> 'rx smatcher \<Rightarrow> bytes \<Rightarrow> nat \<Rightarrow> py_error + match_result list" where
  "process_chunk lib m chunk chunk_len =
     (case (case sm_ac_automaton m of
              None \<Rightarrow> Inr []
            | Some a \<Rightarrow> sac_search a (c_string chunk) chunk_len) of
        Inl e \<Rightarrow> Inl e
      | Inr ac_matches \<Rightarrow>
          (case (case sm_regex_engine m of
                   None \<Rightarrow> Inr []
                 | Some e \<Rightarrow> sre_match lib e (c_string chunk) chunk_len) of
             Inl e \<Rightarrow> Inl e
           | Inr regex_matches \<Rightarrow> Inr (combine_matches ac_matches regex_matches)))"

text \<open>
  \<open>match\<close>, \<open>feed\<close> and \<open>reset\<close>: what the call returns or raises, and the Matcher after
  it. An exception leaves the Matcher as it was.
\<close>

definition smatcher_match ::
  "'rx re_module \<Rightarrow> 'rx smatcher \<Rightarrow> bytes \<Rightarrow> (py_error + match_result list) \<times> 'rx smatcher" where
  "smatcher_match lib m text =
     (case process_chunk lib m text (u32 (length text)) of
        Inl e \<Rightarrow> (Inl e, m)
      | Inr matches \<Rightarrow>
          (Inr matches, m\<lparr>sm_total_matches := u32 (sm_total_matches m + length matches)\<rparr>))"

definition smatcher_feed ::
  "'rx re_module \<Rightarrow> 'rx smatcher \<Rightarrow> bytes \<Rightarrow> (py_error + match_result list) \<times> 'rx smatcher" where
  "smatcher_feed lib m chunk =
     (if \<not> sm_streaming_mode m
      then (Inl (RuntimeError ''feed() can only be used in streaming mode''), m)
      else
        case process_chunk lib m chunk (u32 (length chunk)) of
          Inl e \<Rightarrow> (Inl e, m)
        | Inr matches \<Rightarrow>
            (Inr matches, m\<lparr>sm_total_matches := u32 (sm_total_matches m + length matches)\<rparr>))"

definition smatcher_reset :: "'rx smatcher \<Rightarrow> 'rx smatcher" where
  "smatcher_reset m =
     m\<lparr>sm_total_matches := 0, sm_stream_buffer := map_option sb_reset (sm_stream_buffer m)\<rparr>"

definition smatcher_get_total_matches :: "'rx smatcher \<Rightarrow> nat" where
  "smatcher_get_total_matches m = sm_total_matches m"

text \<open>
  A caller that feeds the chunks one after the other and concatenates what the calls
  return; the first exception ends the run. \<open>match_each\<close> does the same with \<open>match\<close>.
\<close>

fun feed_all :: "'rx re_module \<Rightarrow> 'rx smatcher \<Rightarrow> bytes list \<Rightarrow> py_error + match_result list" where
  "feed_all lib m [] = Inr []"
| "feed_all lib m (chunk # chunks) =
     (case smatcher_feed lib m chunk of
        (Inl e, m') \<Rightarrow> Inl e
      | (Inr matches, m') \<Rightarrow>
          (case feed_all lib m' chunks of
             Inl e \<Rightarrow> Inl e
           | Inr rest \<Rightarrow> Inr (matches @ rest)))"


section \<open>The Matcher calls with the reads of the pattern left open\<close>

text \<open>
  \<open>_process_chunk\<close>, \<open>match\<close> and \<open>feed\<close> once more, over \<open>sac_search_reading\<close>: \<open>rd\<close> is
  what the one call of \<open>search\<close> inside reads through \<open>pattern_bytes\<close>.
\<close>

definition process_chunk_reading ::
  "(nat \<Rightarrow> nat \<Rightarrow> nat \<Rightarrow> char option) \<Rightarrow> 'rx re_module \<Rightarrow> 'rx smatcher \<Rightarrow> bytes \<Rightarrow> nat \<Rightarrow>
     py_error + match_result list" where
  "process_chunk_reading rd lib m chunk chunk_len =
     (case (case sm_ac_automaton m of
              None \<Rightarrow> Inr []
            | Some a \<Rightarrow> sac_search_reading rd a (c_string chunk) chunk_len) of
        Inl e \<Rightarrow> Inl e
      | Inr ac_matches \<Rightarrow>
          (case (case sm_regex_engine m of
                   None \<Rightarrow> Inr []
                 | Some e \<Rightarrow> sre_match lib e (c_string chunk) chunk_len) of
             Inl e \<Rightarrow> Inl e
           | Inr regex_matches \<Rightarrow> Inr (combine_matches ac_matches regex_matches)))"

definition smatcher_match_reading ::
  "(nat \<Rightarrow> nat \<Rightarrow> nat \<Rightarrow> char option) \<Rightarrow> 'rx re_module \<Rightarrow> 'rx smatcher \<Rightarrow> bytes \<Rightarrow>
     (py_error + match_result list) \<times> 'rx smatcher" where
  "smatcher_match_reading rd lib m text =
     (case process_chunk_reading rd lib m text (u32 (length text)) of
        Inl e \<Rightarrow> (Inl e, m)
      | Inr matches \<Rightarrow>
          (Inr matches, m\<lparr>sm_total_matches := u32 (sm_total_matches m + length matches)\<rparr>))"

definition smatcher_feed_reading ::
  "(nat \<Rightarrow> nat \<Rightarrow> nat \<Rightarrow> char option) \<Rightarrow> 'rx re_module \<Rightarrow> 'rx smatcher \<Rightarrow> bytes \<Rightarrow>
     (py_error + match_result list) \<times> 'rx smatcher" where
  "smatcher_feed_reading rd lib m chunk =
     (if \<not> sm_streaming_mode m
      then (Inl (RuntimeError ''feed() can only be used in streaming mode''), m)
      else
        case process_chunk_reading rd lib m chunk (u32 (length chunk)) of
          Inl e \<Rightarrow> (Inl e, m)
        | Inr matches \<Rightarrow>
            (Inr matches, m\<lparr>sm_total_matches := u32 (sm_total_matches m + length matches)\<rparr>))"

section \<open>The Matcher over the circular buffer\<close>

text \<open>
  This Matcher calls \<open>_match_with_python_re\<close>, \<open>initialize\<close>, \<open>write\<close> and \<open>clear\<close>: the
  regex engine with diagnostics and the circular buffer. \<open>match\<close> hands its \<open>bytes\<close>
  argument to \<open>_match_with_python_re\<close> as it is. Its automaton is an untyped
  object of which it calls \<open>build\<close> and \<open>search\<close> only; the model takes the two as a
  parameter: \<open>ac_new_built\<close> is \<open>ACAutomaton()\<close> followed by \<open>build(patterns)\<close>, \<open>None\<close>
  when that does not return, and \<open>ac_search\<close> is \<open>search(text)\<close>.
\<close>

record ('ac, 'hit) ac_class =
  ac_new_built :: "string list \<Rightarrow> 'ac option"
  ac_search :: "'ac \<Rightarrow> bytes \<Rightarrow> py_error + 'hit list"

record ('ac, 'rx) fmatcher =
  fm_ac_automaton :: "'ac option"
  fm_regex_engine :: "'rx fre_engine option"
  fm_stream_buffer :: "stream_buffer option"
  fm_streaming_mode :: bool
  fm_total_matches :: nat
  fm_ac_patterns :: "string list"
  fm_regex_patterns :: "string list"

text \<open>
  \<open>build\<close>: the Matcher and the lines printed, or \<open>None\<close> when the automaton's build does
  not return. The regex engine is built with \<open>fre_build\<close>, for regex lists on which
  \<open>re.compile\<close> raises nothing but \<open>re.error\<close>.
\<close>

definition fmatcher_build ::
  "('ac, 'hit) ac_class \<Rightarrow> 'rx re_module \<Rightarrow> ('ac, 'rx) fmatcher \<Rightarrow> string list option \<Rightarrow>
     string list option \<Rightarrow> (('ac, 'rx) fmatcher \<times> string list) option" where
  "fmatcher_build cls lib m patterns regex =
     (let m = (case patterns of Some (p # ps) \<Rightarrow> m\<lparr>fm_ac_patterns := p # ps\<rparr> | _ \<Rightarrow> m);
          m = (case regex of Some (r # rs) \<Rightarrow> m\<lparr>fm_regex_patterns := r # rs\<rparr> | _ \<Rightarrow> m)
      in
        case (if fm_ac_patterns m \<noteq> []
              then map_option (\<lambda>a. m\<lparr>fm_ac_automaton := Some a\<rparr>) (ac_new_built cls (fm_ac_patterns m))
              else Some m) of
          None \<Rightarrow> None
        | Some m \<Rightarrow>
            (case (if fm_regex_patterns m \<noteq> []
                   then (case fre_build lib fre_cinit (fm_regex_patterns m) of
                           (e, printed) \<Rightarrow> (m\<lparr>fm_regex_engine := Some e\<rparr>, printed))
                   else (m, [])) of
               (m, printed) \<Rightarrow>
                 Some (if fm_streaming_mode m \<and> fm_stream_buffer m = None
                       then m\<lparr>fm_stream_buffer := Some (initialize stream_buffer_cinit 8192)\<rparr>
                       else m,
                       printed)))"


definition fmatcher_process_chunk :: "bytes \<Rightarrow> nat \<Rightarrow> match_result list" where
  "fmatcher_process_chunk chunk chunk_len = []"

definition fmatcher_feed ::
  "('ac, 'rx) fmatcher \<Rightarrow> bytes \<Rightarrow> (py_error + match_result list) \<times> ('ac, 'rx) fmatcher" where
  "fmatcher_feed m chunk =
     (if \<not> fm_streaming_mode m
      then (Inl (RuntimeError ''Streaming mode not enabled. Use match() for batch processing.''), m)
      else
        case fm_stream_buffer m of
          None \<Rightarrow> (Inl (RuntimeError ''Stream buffer not initialized. Call build() first.''), m)
        | Some b \<Rightarrow>
            (case write_data b chunk of
               (b', bytes_written) \<Rightarrow>
                 (Inr (if bytes_written = 0 then []
                       else fmatcher_process_chunk chunk (u32 (length chunk))),
                  m\<lparr>fm_stream_buffer := Some b'\<rparr>)))"

definition fmatcher_combine_matches :: "'hit list \<Rightarrow> python_re_match list \<Rightarrow> match_result list" where
  "fmatcher_combine_matches ac_matches regex_matches = []"

definition fmatcher_match ::
  "('ac, 'hit) ac_class \<Rightarrow> 'rx re_module \<Rightarrow> ('ac, 'rx) fmatcher \<Rightarrow> bytes \<Rightarrow>
     (py_error + match_result list) \<times> ('ac, 'rx) fmatcher" where
  "fmatcher_match cls lib m text =
     (case (case fm_ac_automaton m of
              None \<Rightarrow> Inr []
            | Some a \<Rightarrow> ac_search cls a text) of
        Inl e \<Rightarrow> (Inl e, m)
      | Inr ac_matches \<Rightarrow>
          (case (case fm_regex_engine m of
                   None \<Rightarrow> Inr []
                 | Some e \<Rightarrow> fre_match_with_python_re lib e (Bytes text)) of
             Inl e \<Rightarrow> (Inl e, m)
           | Inr regex_matches \<Rightarrow> (Inr (fmatcher_combine_matches ac_matches regex_matches), m)))"

text \<open>The simplified automaton as the automaton of this Matcher.\<close>

definition simple_ac_class :: "(sac_automaton, ac_match) ac_class" where
  "simple_ac_class =
     \<lparr>ac_new_built = (\<lambda>patterns. Some (sac_build sac_cinit patterns)),
      ac_search = (\<lambda>a text. sac_search a text 0)\<rparr>"

definition fmatcher_reset :: "('ac, 'rx) fmatcher \<Rightarrow> ('ac, 'rx) fmatcher" where
  "fmatcher_reset m =
     m\<lparr>fm_total_matches := 0, fm_stream_buffer := map_option clear (fm_stream_buffer m)\<rparr>"

text \<open>
  A sequence of writes and reads on one buffer: the final state, the bytes the writes
  accepted (the first \<open>bytes_written\<close> bytes of each argument) and the bytes the reads
  returned, each concatenated in order.
\<close>

datatype buffer_op = Write bytes | Read nat

fun run_ops :: "stream_buffer \<Rightarrow> buffer_op list \<Rightarrow> stream_buffer \<times> bytes \<times> bytes" where
  "run_ops s [] = (s, [], [])"
| "run_ops s (Write input # ops) =
     (case write_data s input of
        (s', bytes_written) \<Rightarrow>
          (case run_ops s' ops of
             (s'', accepted, returned) \<Rightarrow> (s'', take bytes_written input @ accepted, returned)))"
| "run_ops s (Read len # ops) =
     (case read s len of
        (s', result) \<Rightarrow>
          (case run_ops s' ops of
             (s'', accepted, returned) \<Rightarrow> (s'', accepted, result @ returned)))"

section \<open>Arithmetic of the buffer positions\<close>

lemma u32_id: "n < 2 ^ 32 \<Longrightarrow> u32 n = n"
  by (simp add: u32_def)

lemma u32_sub_eq:
  assumes "b \<le> a" "a < 2 ^ 32"
  shows "u32_sub a b = a - b"
proof -
  have "u32 a + 2 ^ 32 - u32 b = 2 ^ 32 + (a - b)"
    using assms by (simp add: u32_id)
  then have "u32_sub a b = (2 ^ 32 + (a - b)) mod 2 ^ 32"
    by (simp only: u32_sub_def)
  also have "\<dots> = (a - b) mod 2 ^ 32"
    by (simp only: mod_add_self1)
  also have "\<dots> = a - b"
    using assms by (intro mod_less) simp
  finally show ?thesis .
qed

lemma int_mod_zero_eq:
  fixes x y c :: int
  assumes "(x - y) mod c = 0" "0 \<le> x" "x < c" "0 \<le> y" "y < c"
  shows "x = y"
proof (rule ccontr)
  assume ne: "x \<noteq> y"
  have d: "c dvd (x - y)" using assms(1) by (simp only: mod_eq_0_iff_dvd)
  show False
  proof (cases "y < x")
    case True
    then have "c \<le> x - y" using d by (intro zdvd_imp_le) auto
    then show False using assms by linarith
  next
    case False
    then have "0 < y - x" using ne by linarith
    moreover have "c dvd (y - x)" using d by (simp only: dvd_diff_commute)
    ultimately have "c \<le> y - x" by (intro zdvd_imp_le) auto
    then show False using assms by linarith
  qed
qed

lemma mod_advance_write:
  "(int ((wp + n) mod c) - int rp) mod int c = ((int wp - int rp) mod int c + int n) mod int c"
proof -
  have "(int ((wp + n) mod c) - int rp) mod int c = (((int wp + int n) mod int c) - int rp) mod int c"
    by (simp only: zmod_int of_nat_add)
  also have "\<dots> = ((int wp + int n) - int rp) mod int c"
    by (simp only: mod_diff_left_eq)
  also have "(int wp + int n) - int rp = (int wp - int rp) + int n"
    by simp
  finally show ?thesis by (simp only: mod_add_left_eq)
qed

lemma mod_advance_read:
  "(int wp - int ((rp + n) mod c)) mod int c = ((int wp - int rp) mod int c - int n) mod int c"
proof -
  have "(int wp - int ((rp + n) mod c)) mod int c = (int wp - ((int rp + int n) mod int c)) mod int c"
    by (simp only: zmod_int of_nat_add)
  also have "\<dots> = (int wp - (int rp + int n)) mod int c"
    by (simp only: mod_diff_right_eq)
  also have "int wp - (int rp + int n) = (int wp - int rp) - int n"
    by simp
  finally show ?thesis by (simp only: mod_diff_left_eq)
qed

lemma pos_advance:
  fixes wp rp sz n c :: nat
  assumes "rp < c" "wp < c" "sz + n \<le> c" "0 < n"
    and "if sz < c then (int wp - int rp) mod int c = int sz else wp = rp"
  shows "if sz + n < c then (int ((wp + n) mod c) - int rp) mod int c = int (sz + n)
         else (wp + n) mod c = rp"
proof -
  have sz: "sz < c" using assms by linarith
  then have eq: "(int wp - int rp) mod int c = int sz" using assms(5) by simp
  have main: "(int ((wp + n) mod c) - int rp) mod int c = (int sz + int n) mod int c"
    by (simp only: mod_advance_write eq)
  show ?thesis
  proof (cases "sz + n < c")
    case True
    then show ?thesis using main by simp
  next
    case False
    then have "sz + n = c" using assms(3) by simp
    then have "int sz + int n = int c" by simp
    then have "(int sz + int n) mod int c = 0" by (simp only: mod_self)
    with main have "(int ((wp + n) mod c) - int rp) mod int c = 0" by simp
    moreover have "0 \<le> int ((wp + n) mod c)" "int ((wp + n) mod c) < int c" "0 \<le> int rp" "int rp < int c"
      using assms(1) sz by auto
    ultimately have "int ((wp + n) mod c) = int rp"
      by (rule int_mod_zero_eq)
    then show ?thesis using False by simp
  qed
qed

lemma pos_retreat:
  fixes wp rp sz n c :: nat
  assumes "rp < c" "wp < c" "sz \<le> c" "0 < n" "n \<le> sz"
    and "if sz < c then (int wp - int rp) mod int c = int sz else wp = rp"
  shows "(int wp - int ((rp + n) mod c)) mod int c = int (sz - n)"
proof (cases "sz < c")
  case True
  then have "(int wp - int rp) mod int c = int sz" using assms(6) by simp
  then have "(int wp - int ((rp + n) mod c)) mod int c = (int sz - int n) mod int c"
    by (simp only: mod_advance_read)
  also have "\<dots> = int sz - int n"
    using assms True by (intro mod_pos_pos_trivial) auto
  finally show ?thesis using assms by simp
next
  case False
  then have e: "wp = rp" "sz = c" using assms by auto
  have "(int wp - int ((rp + n) mod c)) mod int c = (0 - int n) mod int c"
    using e assms(1) by (simp only: mod_advance_read) simp
  also have "0 - int n = (int c - int n) - int c" by simp
  also have "((int c - int n) - int c) mod int c = (int c - int n) mod int c"
    by (simp only: minus_mod_self2)
  also have "\<dots> = int c - int n"
    using assms e by (intro mod_pos_pos_trivial) auto
  finally show ?thesis using assms e by simp
qed

section \<open>The simplified search where no index wraps\<close>

lemma byte_at_in: "i < length b \<Longrightarrow> byte_at b i = Some (b ! i)"
  by (simp add: byte_at_def)

lemma compare_from_in_range:
  assumes "j + length p \<le> length text" "length text < 2 ^ 32" "k \<le> length p"
  shows "compare_from text p j [k..<length p] = Inr (\<forall>i. k \<le> i \<and> i < length p \<longrightarrow> text ! (j + i) = p ! i)"
  using assms(3)
proof (induction "length p - k" arbitrary: k)
  case 0
  then have e: "length p = k" by linarith
  have "\<forall>i. k \<le> i \<and> i < k \<longrightarrow> text ! (j + i) = p ! i" by auto
  then show ?case unfolding e by simp
next
  case (Suc n)
  then have k: "k < length p" by linarith
  then have up: "[k..<length p] = k # [Suc k..<length p]" by (simp add: upt_conv_Cons)
  have "j + k < length text" "j + k < 2 ^ 32" using k assms by linarith+
  then have rd: "byte_at text (u32 (j + k)) = Some (text ! (j + k))"
    by (simp add: u32_id byte_at_in)
  have IH: "compare_from text p j [Suc k..<length p]
      = Inr (\<forall>i. Suc k \<le> i \<and> i < length p \<longrightarrow> text ! (j + i) = p ! i)"
    using Suc(2) k by (intro Suc(1)) linarith+
  have iff: "(\<forall>i. k \<le> i \<and> i < length p \<longrightarrow> text ! (j + i) = p ! i)
      \<longleftrightarrow> text ! (j + k) = p ! k \<and> (\<forall>i. Suc k \<le> i \<and> i < length p \<longrightarrow> text ! (j + i) = p ! i)"
  proof (intro iffI conjI allI impI)
    assume a: "\<forall>i. k \<le> i \<and> i < length p \<longrightarrow> text ! (j + i) = p ! i"
    show "text ! (j + k) = p ! k" using a k by simp
    fix i assume "Suc k \<le> i \<and> i < length p"
    then show "text ! (j + i) = p ! i" using a by simp
  next
    fix i
    assume a: "text ! (j + k) = p ! k \<and> (\<forall>i. Suc k \<le> i \<and> i < length p \<longrightarrow> text ! (j + i) = p ! i)"
      and i: "k \<le> i \<and> i < length p"
    show "text ! (j + i) = p ! i"
    proof (cases "i = k")
      case True
      then show ?thesis using a by simp
    next
      case False
      then have "Suc k \<le> i" using i by simp
      then show ?thesis using a i by simp
    qed
  qed
  show ?case
    unfolding up by (simp add: rd IH iff)
qed

lemma match_iff_take_drop:
  assumes "j + length p \<le> length text"
  shows "(\<forall>i. 0 \<le> i \<and> i < length p \<longrightarrow> text ! (j + i) = p ! i) \<longleftrightarrow> take (length p) (drop j text) = p"
  using assms by (auto simp: list_eq_iff_nth_eq)


lemma compare_from_take_drop:
  assumes "j + length p \<le> length text" "length text < 2 ^ 32"
  shows "compare_from text p j [0..<length p] = Inr (take (length p) (drop j text) = p)"
  using compare_from_in_range[OF assms, of 0] match_iff_take_drop[OF assms(1)] by simp

lemma scan_positions_closed:
  assumes "bound + length p \<le> Suc (length text)" "length text < 2 ^ 32" "j \<le> bound"
  shows "scan_positions text p (length p) bound j acc =
     Inr (acc @ map (\<lambda>j. \<lparr>match_pattern = p, match_start = j, match_end = j + length p\<rparr>)
                  (filter (\<lambda>j. take (length p) (drop j text) = p) [j..<bound]))"
  using assms(3)
proof (induction "bound - j" arbitrary: j acc)
  case 0
  then have "j = bound" by linarith
  then show ?case by (subst scan_positions.simps) simp
next
  case (Suc n)
  then have j: "j < bound" by linarith
  then have up: "[j..<bound] = j # [Suc j..<bound]" by (simp add: upt_conv_Cons)
  have r: "j + length p \<le> length text" using j assms(1) by linarith
  then have e: "u32 (j + length p) = j + length p" using assms(2) by (simp add: u32_id)
  have IH: "scan_positions text p (length p) bound (Suc j) acc' =
     Inr (acc' @ map (\<lambda>j. \<lparr>match_pattern = p, match_start = j, match_end = j + length p\<rparr>)
                  (filter (\<lambda>j. take (length p) (drop j text) = p) [Suc j..<bound]))" for acc'
    using Suc(2) j by (intro Suc(1)) linarith+
  show ?case
    by (subst scan_positions.simps) (simp add: j up compare_from_take_drop[OF r assms(2)] IH e)
qed


lemma loop_bound:
  assumes "al + 1 < 2 ^ 32" "pl \<le> Suc al"
  shows "u32 (u32_sub al pl + 1) = Suc al - pl"
proof (cases "pl \<le> al")
  case True
  then have "u32_sub al pl = al - pl" using assms by (simp add: u32_sub_eq)
  then show ?thesis using True assms by (simp add: u32_id)
next
  case False
  then have pl: "pl = Suc al" using assms by linarith
  have "u32 al + 2 ^ 32 - u32 pl = 2 ^ 32 - 1"
    using assms unfolding pl by (simp add: u32_id)
  then have "u32_sub al pl = (2 ^ 32 - 1) mod 2 ^ 32" by (simp only: u32_sub_def)
  then have "u32_sub al pl + 1 = 2 ^ 32" by simp
  then show ?thesis unfolding pl by (simp add: u32_def)
qed

lemma scan_patterns_closed:
  assumes "length text + 1 < 2 ^ 32" "\<forall>p\<in>set P. length p \<le> Suc (length text)"
  shows "scan_patterns text (length text) P acc = Inr (acc @ concat (map (occurrence_records text) P))"
  using assms(2)
proof (induction P arbitrary: acc)
  case Nil
  then show ?case by simp
next
  case (Cons p P)
  have lp: "length p \<le> Suc (length text)" using Cons.prems by simp
  then have u: "u32 (length p) = length p" using assms(1) by (simp add: u32_id)
  have "u32 (u32_sub (length text) (length p) + 1) = Suc (length text) - length p"
    using assms(1) lp by (rule loop_bound)
  then have b: "u32 (Suc (u32_sub (length text) (length p))) = Suc (length text) - length p"
    by simp
  have sp: "scan_positions text p (length p) (Suc (length text) - length p) 0 acc
      = Inr (acc @ occurrence_records text p)"
    using assms(1) lp by (subst scan_positions_closed) (simp_all add: occurrence_records_def occurrences_def)
  show ?case
    using Cons.prems by (simp add: Let_def u b sp Cons.IH)
qed

lemma sac_search_closed:
  assumes "length text + 1 < 2 ^ 32" "\<forall>p\<in>set P. length p \<le> Suc (length text)"
    and "text_len = 0 \<or> text_len = length text"
  shows "sac_search (sac_build a P) text text_len = Inr (concat (map (occurrence_records text) P))"
proof -
  have "(if text_len > 0 then text_len else u32 (length text)) = length text"
    using assms(1,3) by (auto simp: u32_id)
  then show ?thesis
    using scan_patterns_closed[OF assms(1,2), of "[]"] by (simp add: sac_search_def sac_build_def)
qed

section \<open>The buffer invariant under the operations\<close>

lemma to_write_pos: "to_write s data_len \<noteq> 0 \<Longrightarrow> data_len \<noteq> 0"
  by (auto simp: to_write_def split: if_splits)

lemma to_read_pos: "to_read s output_len \<noteq> 0 \<Longrightarrow> output_len \<noteq> 0"
  by (auto simp: to_read_def split: if_splits)

lemma internal_write_none:
  "buf_data s = None \<or> to_write s data_len = 0 \<Longrightarrow> internal_write s input data_len = (s, 0)"
  by (auto simp: internal_write_def to_write_def Let_def split: option.splits)

lemma internal_write_some:
  assumes "buf_data s = Some d" "to_write s data_len \<noteq> 0"
  shows "snd (internal_write s input data_len) = to_write s data_len"
    and "buf_write_pos (fst (internal_write s input data_len)) =
           u32 (buf_write_pos s + to_write s data_len) mod buf_capacity s"
    and "buf_size (fst (internal_write s input data_len)) = u32 (buf_size s + to_write s data_len)"
    and "buf_read_pos (fst (internal_write s input data_len)) = buf_read_pos s"
    and "buf_capacity (fst (internal_write s input data_len)) = buf_capacity s"
    and "default_capacity (fst (internal_write s input data_len)) = default_capacity s"
  using assms to_write_pos[OF assms(2)] unfolding to_write_def internal_write_def Let_def
  by (simp_all split del: if_split)

lemma internal_read_none:
  "buf_data s = None \<or> to_read s output_len = 0 \<Longrightarrow> internal_read s output_len = (s, [], 0)"
  by (auto simp: internal_read_def to_read_def Let_def split: option.splits)

lemma internal_read_some:
  assumes "buf_data s = Some d" "to_read s output_len \<noteq> 0"
  shows "snd (snd (internal_read s output_len)) = to_read s output_len"
    and "buf_read_pos (fst (internal_read s output_len)) =
           u32 (buf_read_pos s + to_read s output_len) mod buf_capacity s"
    and "buf_size (fst (internal_read s output_len)) = u32_sub (buf_size s) (to_read s output_len)"
    and "buf_write_pos (fst (internal_read s output_len)) = buf_write_pos s"
    and "buf_capacity (fst (internal_read s output_len)) = buf_capacity s"
    and "default_capacity (fst (internal_read s output_len)) = default_capacity s"
    and "buf_data (fst (internal_read s output_len)) = buf_data s"
  using assms to_read_pos[OF assms(2)] unfolding to_read_def internal_read_def Let_def
  by (simp_all split del: if_split)

lemma buffer_inv_bounds:
  assumes "buffer_inv s"
  shows "buf_size s \<le> buf_capacity s" "buf_read_pos s < buf_capacity s"
    "buf_write_pos s < buf_capacity s" "0 < buf_capacity s"
  using assms by (auto simp: buffer_inv_def)

lemma internal_write_inv:
  assumes inv: "buffer_inv s" and cap: "buf_capacity s \<le> 2 ^ 31"
  shows "buffer_inv (fst (internal_write s input data_len))"
proof (cases "buf_data s = None \<or> to_write s data_len = 0")
  case True
  then show ?thesis using inv by (simp add: internal_write_none)
next
  case False
  then obtain d where d: "buf_data s = Some d" and pos: "to_write s data_len \<noteq> 0" by auto
  define n where "n = to_write s data_len"
  note b = buffer_inv_bounds[OF inv]
  have space: "get_available_space s = buf_capacity s - buf_size s"
    using d b cap by (simp add: get_available_space_def u32_sub_eq)
  have n: "0 < n" "buf_size s + n \<le> buf_capacity s"
    using pos b unfolding n_def to_write_def space by (auto split: if_splits)
  have small: "buf_write_pos s + n < 2 ^ 32" "buf_size s + n < 2 ^ 32"
    using n b cap by auto
  let ?s' = "fst (internal_write s input data_len)"
  have st: "buf_write_pos ?s' = (buf_write_pos s + n) mod buf_capacity s"
    "buf_size ?s' = buf_size s + n" "buf_read_pos ?s' = buf_read_pos s"
    "buf_capacity ?s' = buf_capacity s"
    using internal_write_some[OF d pos, of input] small by (simp_all add: n_def[symmetric] u32_id)
  have step: "if buf_size s + n < buf_capacity s
      then (int ((buf_write_pos s + n) mod buf_capacity s) - int (buf_read_pos s)) mod int (buf_capacity s)
             = int (buf_size s + n)
      else (buf_write_pos s + n) mod buf_capacity s = buf_read_pos s"
    using inv n b by (intro pos_advance) (auto simp: buffer_inv_def)
  show ?thesis
    unfolding buffer_inv_def st using step b n by (simp split: if_splits)
qed

lemma internal_read_inv:
  assumes inv: "buffer_inv s" and cap: "buf_capacity s \<le> 2 ^ 31"
  shows "buffer_inv (fst (internal_read s output_len))"
proof (cases "buf_data s = None \<or> to_read s output_len = 0")
  case True
  then show ?thesis using inv by (simp add: internal_read_none)
next
  case False
  then obtain d where d: "buf_data s = Some d" and pos: "to_read s output_len \<noteq> 0" by auto
  define n where "n = to_read s output_len"
  note b = buffer_inv_bounds[OF inv]
  have n: "0 < n" "n \<le> buf_size s"
    using pos d unfolding n_def to_read_def get_available_data_def by (auto split: if_splits)
  have small: "buf_read_pos s + n < 2 ^ 32" "buf_size s < 2 ^ 32"
    using n b cap by auto
  let ?s' = "fst (internal_read s output_len)"
  have st: "buf_read_pos ?s' = (buf_read_pos s + n) mod buf_capacity s"
    "buf_size ?s' = buf_size s - n" "buf_write_pos ?s' = buf_write_pos s"
    "buf_capacity ?s' = buf_capacity s"
    using internal_read_some[OF d pos] small n by (simp_all add: n_def[symmetric] u32_id u32_sub_eq)
  have step: "(int (buf_write_pos s) - int ((buf_read_pos s + n) mod buf_capacity s)) mod int (buf_capacity s)
      = int (buf_size s - n)"
    using inv n b by (intro pos_retreat) (auto simp: buffer_inv_def)
  have lt: "buf_size s - n < buf_capacity s"
    using n b by linarith
  show ?thesis
    unfolding buffer_inv_def st using step b lt by simp
qed

lemma write_data_inv:
  "buffer_inv s \<Longrightarrow> buf_capacity s \<le> 2 ^ 31 \<Longrightarrow> buffer_inv (fst (write_data s input))"
  by (simp add: write_data_def internal_write_inv)

lemma read_fst:
  "fst (read s len) =
     (let k = (if len > 0 \<and> len \<le> get_available_data s then len else get_available_data s)
      in if k = 0 then s else fst (internal_read s k))"
  by (simp add: read_def Let_def split: prod.splits)

lemma read_inv:
  "buffer_inv s \<Longrightarrow> buf_capacity s \<le> 2 ^ 31 \<Longrightarrow> buffer_inv (fst (read s len))"
  by (simp add: read_fst Let_def internal_read_inv)

lemma clear_inv: "buffer_inv s \<Longrightarrow> buffer_inv (clear s)"
  by (simp add: buffer_inv_def clear_def)

lemma initialize_inv:
  "capacity \<noteq> 0 \<or> default_capacity s \<noteq> 0 \<Longrightarrow> buffer_inv (initialize s capacity)"
  by (auto simp: buffer_inv_def initialize_def init_buffer_def free_buffer_def Let_def)

section \<open>The bytes in the array\<close>

lemma length_memcpy:
  "offset + n \<le> length dst \<Longrightarrow> n \<le> length src \<Longrightarrow> length (memcpy dst offset src n) = length dst"
  by (simp add: memcpy_def)

lemma nth_memcpy:
  assumes "offset + n \<le> length dst" "n \<le> length src" "p < length dst"
  shows "memcpy dst offset src n ! p = (if offset \<le> p \<and> p < offset + n then src ! (p - offset) else dst ! p)"
proof -
  consider "p < offset" | "offset \<le> p" "p < offset + n" | "offset + n \<le> p" by linarith
  then show ?thesis
  proof cases
    case 1
    then show ?thesis using assms by (simp add: memcpy_def nth_append)
  next
    case 2
    then have "p - offset < n" by linarith
    then show ?thesis using 2 assms by (simp add: memcpy_def nth_append)
  next
    case 3
    then have a: "\<not> p - offset < n" "\<not> p < offset" by simp_all
    have "offset + n + (p - offset - n) = p" using 3 by simp
    then show ?thesis using 3 a assms by (simp add: memcpy_def nth_append)
  qed
qed

lemma mod_2c:
  fixes x c :: nat
  assumes "x < 2 * c"
  shows "x mod c = (if x < c then x else x - c)"
proof (cases "x < c")
  case True
  then show ?thesis by simp
next
  case False
  then have "x mod c = (x - c) mod c" by (intro le_mod_geq) simp
  also have "\<dots> = x - c" using assms False by (intro mod_less) linarith
  finally show ?thesis using False by simp
qed

lemma inv_write_pos:
  assumes "buffer_inv s"
  shows "buf_write_pos s = (buf_read_pos s + buf_size s) mod buf_capacity s"
proof -
  note b = buffer_inv_bounds[OF assms]
  show ?thesis
  proof (cases "buf_size s < buf_capacity s")
    case True
    then have eq: "(int (buf_write_pos s) - int (buf_read_pos s)) mod int (buf_capacity s) = int (buf_size s)"
      using assms by (simp add: buffer_inv_def)
    have "(int (buf_write_pos s) - int ((buf_read_pos s + buf_size s) mod buf_capacity s)) mod int (buf_capacity s)
        = (int (buf_size s) - int (buf_size s)) mod int (buf_capacity s)"
      by (simp only: mod_advance_read eq)
    then have "(int (buf_write_pos s) - int ((buf_read_pos s + buf_size s) mod buf_capacity s)) mod int (buf_capacity s) = 0"
      by simp
    moreover have "0 \<le> int (buf_write_pos s)" "int (buf_write_pos s) < int (buf_capacity s)"
      "0 \<le> int ((buf_read_pos s + buf_size s) mod buf_capacity s)"
      "int ((buf_read_pos s + buf_size s) mod buf_capacity s) < int (buf_capacity s)"
      using b by simp_all
    ultimately have "int (buf_write_pos s) = int ((buf_read_pos s + buf_size s) mod buf_capacity s)"
      by (rule int_mod_zero_eq)
    then show ?thesis by simp
  next
    case False
    then have "buf_size s = buf_capacity s" "buf_write_pos s = buf_read_pos s"
      using assms by (auto simp: buffer_inv_def)
    then show ?thesis using b by simp
  qed
qed

lemma internal_write_data:
  assumes "buf_data s = Some d" "to_write s data_len \<noteq> 0"
  shows "buf_data (fst (internal_write s input data_len)) =
           Some (copied_in d (buf_capacity s) (buf_write_pos s) input (to_write s data_len))"
  using assms to_write_pos[OF assms(2)] unfolding to_write_def internal_write_def copied_in_def Let_def
  by (simp split del: if_split)

lemma internal_read_output:
  assumes "buf_data s = Some d" "to_read s output_len \<noteq> 0"
  shows "fst (snd (internal_read s output_len)) =
           copied_out d (buf_capacity s) (buf_read_pos s) (to_read s output_len)"
  using assms to_read_pos[OF assms(2)] unfolding to_read_def internal_read_def copied_out_def Let_def
  by (simp split del: if_split)

lemma internal_peek_output:
  assumes "buf_data s = Some d" "to_read s output_len \<noteq> 0"
  shows "internal_peek s output_len =
           (copied_out d (buf_capacity s) (buf_read_pos s) (to_read s output_len), to_read s output_len)"
  using assms to_read_pos[OF assms(2)] unfolding to_read_def internal_peek_def copied_out_def Let_def
  by (simp split del: if_split)

lemma copied_in_simp:
  assumes "pos < c" "c < 2 ^ 32" "n \<le> c"
  shows "copied_in d c pos input n =
     (if c - pos < n
      then memcpy (memcpy d pos input (c - pos)) 0 (drop (c - pos) input) (n - (c - pos))
      else memcpy d pos input n)"
proof -
  have "u32_sub c pos = c - pos" using assms by (simp add: u32_sub_eq)
  moreover have "c - pos < n \<Longrightarrow> u32_sub n (c - pos) = n - (c - pos)"
    using assms by (simp add: u32_sub_eq)
  ultimately show ?thesis
    by (simp add: copied_in_def Let_def)
qed

lemma copied_out_simp:
  assumes "pos < c" "c < 2 ^ 32" "n \<le> c"
  shows "copied_out d c pos n =
     (if c - pos < n
      then take (c - pos) (drop pos d) @ take (n - (c - pos)) d
      else take n (drop pos d))"
proof -
  have "u32_sub c pos = c - pos" using assms by (simp add: u32_sub_eq)
  moreover have "c - pos < n \<Longrightarrow> u32_sub n (c - pos) = n - (c - pos)"
    using assms by (simp add: u32_sub_eq)
  ultimately show ?thesis
    by (simp add: copied_out_def Let_def)
qed

lemma length_copied_in:
  assumes "length d = c" "pos < c" "c < 2 ^ 32" "n \<le> c" "n \<le> length input"
  shows "length (copied_in d c pos input n) = c"
  using assms by (simp add: copied_in_simp length_memcpy)

lemma nth_copied_in:
  assumes "length d = c" "pos < c" "c < 2 ^ 32" "n \<le> c" "n \<le> length input" "p < c"
  shows "copied_in d c pos input n ! p =
           (if pos \<le> p then (if p - pos < n then input ! (p - pos) else d ! p)
            else (if p + c - pos < n then input ! (p + c - pos) else d ! p))"
proof (cases "c - pos < n")
  case False
  have eq: "copied_in d c pos input n ! p = (if pos \<le> p \<and> p < pos + n then input ! (p - pos) else d ! p)"
    using assms False by (simp add: copied_in_simp nth_memcpy)
  show ?thesis
  proof (cases "pos \<le> p")
    case True
    then have "p < pos + n \<longleftrightarrow> p - pos < n" by linarith
    then show ?thesis using True eq by simp
  next
    case lt: False
    then have "\<not> p + c - pos < n" using False assms by linarith
    then show ?thesis using lt eq by simp
  qed
next
  case True
  let ?d1 = "memcpy d pos input (c - pos)"
  have l1: "length ?d1 = c" using assms True by (simp add: length_memcpy)
  have eq: "copied_in d c pos input n ! p =
      (if p < n - (c - pos) then drop (c - pos) input ! p else ?d1 ! p)"
    using assms True l1 by (simp add: copied_in_simp nth_memcpy)
  have d1: "?d1 ! p = (if pos \<le> p then input ! (p - pos) else d ! p)"
    using assms True by (simp add: nth_memcpy)
  show ?thesis
  proof (cases "pos \<le> p")
    case ge: True
    then have "\<not> p < n - (c - pos)" "p - pos < n" using True assms by linarith+
    then show ?thesis using ge eq d1 by simp
  next
    case lt: False
    then have "p < n - (c - pos) \<longleftrightarrow> p + c - pos < n" using True assms by linarith
    moreover have "c - pos + p = p + c - pos" using assms by linarith
    ultimately show ?thesis using lt eq d1 assms by simp
  qed
qed

lemma ring_offset:
  fixes rp sz i c :: nat
  assumes "rp < c" "sz \<le> c" "i < c"
  shows "(if (rp + sz) mod c \<le> (rp + i) mod c
          then (rp + i) mod c - (rp + sz) mod c
          else (rp + i) mod c + c - (rp + sz) mod c)
       = (if sz \<le> i then i - sz else i + c - sz)"
proof -
  have a: "(rp + i) mod c = (if rp + i < c then rp + i else rp + i - c)"
    using assms by (intro mod_2c) linarith
  have b: "(rp + sz) mod c = (if rp + sz < c then rp + sz else rp + sz - c)"
    using assms by (intro mod_2c) linarith
  consider "rp + i < c" "rp + sz < c" | "rp + i < c" "\<not> rp + sz < c"
    | "\<not> rp + i < c" "rp + sz < c" | "\<not> rp + i < c" "\<not> rp + sz < c" by blast
  then show ?thesis
  proof cases
    case 1
    then show ?thesis unfolding a b using assms by (simp add: not_le)
  next
    case 2
    then show ?thesis unfolding a b using assms by (simp add: not_le)
  next
    case 3
    then show ?thesis unfolding a b using assms by (simp add: not_le)
  next
    case 4
    then show ?thesis unfolding a b using assms by (simp add: not_le) linarith
  qed
qed


lemma contents_write:
  assumes wf: "buffer_wf s" and inv: "buffer_inv s" and cap: "buf_capacity s \<le> 2 ^ 31"
  shows "contents (fst (write_data s input)) = contents s @ take (snd (write_data s input)) input"
proof (cases "to_write s (u32 (length input)) = 0")
  case True
  then show ?thesis by (simp add: write_data_def internal_write_none)
next
  case False
  obtain d where d: "buf_data s = Some d" and ld: "length d = buf_capacity s"
    using wf by (auto simp: buffer_wf_def)
  define n where "n = to_write s (u32 (length input))"
  define c where "c = buf_capacity s"
  define rp where "rp = buf_read_pos s"
  define sz where "sz = buf_size s"
  note b = buffer_inv_bounds[OF inv]
  have wp: "buf_write_pos s = (rp + sz) mod c"
    unfolding rp_def sz_def c_def by (rule inv_write_pos[OF inv])
  have space: "get_available_space s = c - sz"
    using d b cap by (simp add: get_available_space_def u32_sub_eq c_def sz_def)
  have "u32 (length input) \<le> length input" by (simp add: u32_def)
  then have n: "0 < n" "sz + n \<le> c" "n \<le> length input"
    using False b unfolding n_def to_write_def space by (auto split: if_splits)
  have small: "sz + n < 2 ^ 32" "c < 2 ^ 32" "n \<le> c"
    using n b cap by (auto simp: c_def)
  let ?s' = "fst (write_data s input)"
  let ?d' = "copied_in d c (buf_write_pos s) input n"
  have st: "snd (write_data s input) = n" "buf_size ?s' = sz + n" "buf_read_pos ?s' = rp"
    "buf_capacity ?s' = c" "buf_data ?s' = Some ?d'"
    using internal_write_some[OF d False, of input] internal_write_data[OF d False, of input] small
    by (simp_all add: write_data_def n_def[symmetric] u32_id c_def sz_def rp_def)
  have nth: "?d' ! ((rp + i) mod c) = (if i < sz then d ! ((rp + i) mod c) else input ! (i - sz))"
    if "i < sz + n" for i
  proof -
    have i: "i < c" using that n by linarith
    have p: "(rp + i) mod c < c" using b by (simp add: c_def)
    have "?d' ! ((rp + i) mod c) =
        (if (rp + sz) mod c \<le> (rp + i) mod c
         then (if (rp + i) mod c - (rp + sz) mod c < n then input ! ((rp + i) mod c - (rp + sz) mod c) else d ! ((rp + i) mod c))
         else (if (rp + i) mod c + c - (rp + sz) mod c < n then input ! ((rp + i) mod c + c - (rp + sz) mod c) else d ! ((rp + i) mod c)))"
      using ld b small n p unfolding wp by (intro nth_copied_in) (simp_all add: c_def)
    also have "\<dots> = (let k = (if (rp + sz) mod c \<le> (rp + i) mod c
          then (rp + i) mod c - (rp + sz) mod c
          else (rp + i) mod c + c - (rp + sz) mod c) in if k < n then input ! k else d ! ((rp + i) mod c))"
      by (simp add: Let_def)
    also have "\<dots> = (let k = (if sz \<le> i then i - sz else i + c - sz) in if k < n then input ! k else d ! ((rp + i) mod c))"
      using b i by (subst ring_offset) (simp_all add: rp_def sz_def c_def)
    also have "\<dots> = (if i < sz then d ! ((rp + i) mod c) else input ! (i - sz))"
      using that n by (auto simp: Let_def)
    finally show ?thesis .
  qed
  have "contents ?s' = map (\<lambda>i. ?d' ! ((rp + i) mod c)) [0..<sz + n]"
    by (simp add: contents_def st)
  also have "\<dots> = map (\<lambda>i. if i < sz then d ! ((rp + i) mod c) else input ! (i - sz)) [0..<sz + n]"
    using nth by (intro map_cong) auto
  also have "\<dots> = map (\<lambda>i. d ! ((rp + i) mod c)) [0..<sz] @ take n input"
    using n by (intro nth_equalityI) (auto simp: nth_append)
  also have "map (\<lambda>i. d ! ((rp + i) mod c)) [0..<sz] = contents s"
    by (simp add: contents_def d rp_def sz_def c_def)
  finally show ?thesis by (simp add: st)
qed

lemma copied_out_contents:
  assumes "length d = c" "rp < c" "c < 2 ^ 32" "n \<le> c"
  shows "copied_out d c rp n = map (\<lambda>i. d ! ((rp + i) mod c)) [0..<n]"
proof (rule nth_equalityI)
  show len: "length (copied_out d c rp n) = length (map (\<lambda>i. d ! ((rp + i) mod c)) [0..<n])"
    using assms by (auto simp: copied_out_simp)
  fix i assume "i < length (copied_out d c rp n)"
  then have i: "i < n" using len by simp
  have m: "(rp + i) mod c = (if rp + i < c then rp + i else rp + i - c)"
    using assms i by (intro mod_2c) linarith
  show "copied_out d c rp n ! i = map (\<lambda>i. d ! ((rp + i) mod c)) [0..<n] ! i"
  proof (cases "rp + i < c")
    case True
    then have "i < c - rp" by linarith
    then show ?thesis using assms i True m by (simp add: copied_out_simp nth_append)
  next
    case False
    then have a: "\<not> i < c - rp" "c - rp < n" "i - (c - rp) < n - (c - rp)" "i - (c - rp) = rp + i - c"
      using assms i by linarith+
    then show ?thesis using assms i False m by (simp add: copied_out_simp nth_append)
  qed
qed

lemma to_read_le: "buf_data s \<noteq> None \<Longrightarrow> k \<le> buf_size s \<Longrightarrow> to_read s k = k"
  by (auto simp: to_read_def get_available_data_def)

lemma contents_read:
  fixes len :: nat
  assumes wf: "buffer_wf s" and inv: "buffer_inv s" and cap: "buf_capacity s \<le> 2 ^ 31"
  defines "k \<equiv> (if len > 0 \<and> len \<le> buf_size s then len else buf_size s)"
  shows "snd (read s len) = take k (contents s)"
    and "contents (fst (read s len)) = drop k (contents s)"
proof -
  obtain d where d: "buf_data s = Some d" and ld: "length d = buf_capacity s"
    using wf by (auto simp: buffer_wf_def)
  define c where "c = buf_capacity s"
  define rp where "rp = buf_read_pos s"
  define sz where "sz = buf_size s"
  note b = buffer_inv_bounds[OF inv]
  have k: "k \<le> sz" by (simp add: k_def sz_def)
  have avail: "get_available_data s = sz" using d by (simp add: get_available_data_def sz_def)
  have cs: "contents s = map (\<lambda>i. d ! ((rp + i) mod c)) [0..<sz]"
    by (simp add: contents_def d rp_def sz_def c_def)
  have rd: "read s len = (if k = 0 then (s, []) else
      case internal_read s k of (s', output, bytes_read) \<Rightarrow>
        (s', if bytes_read > 0 then take bytes_read output else []))"
    by (simp add: read_def Let_def avail k_def sz_def)
  have "snd (read s len) = take k (contents s) \<and> contents (fst (read s len)) = drop k (contents s)"
  proof (cases "k = 0")
    case True
    then show ?thesis by (simp add: rd)
  next
    case False
    have tr: "to_read s k = k" using d k by (simp add: to_read_le sz_def)
    then have pos: "to_read s k \<noteq> 0" using False by simp
    have small: "rp + k < 2 ^ 32" "sz < 2 ^ 32" "c < 2 ^ 32" "k \<le> c"
      using k b cap by (auto simp: c_def sz_def rp_def)
    let ?r = "internal_read s k"
    have st: "snd (snd ?r) = k" "buf_read_pos (fst ?r) = (rp + k) mod c" "buf_size (fst ?r) = sz - k"
      "buf_capacity (fst ?r) = c" "buf_data (fst ?r) = Some d"
      "fst (snd ?r) = copied_out d c rp k"
      using internal_read_some[OF d pos] internal_read_output[OF d pos] small k d
      by (simp_all add: tr u32_id u32_sub_eq c_def sz_def rp_def)
    have out: "copied_out d c rp k = take k (contents s)"
      using ld b small k by (simp add: copied_out_contents cs take_map c_def rp_def)
    obtain s' out br where ir: "internal_read s k = (s', out, br)"
      by (cases "internal_read s k") auto
    have r: "read s len = (fst ?r, take k (copied_out d c rp k))"
      using False st by (simp add: rd ir)
    have "contents (fst ?r) = map (\<lambda>i. d ! (((rp + k) mod c + i) mod c)) [0..<sz - k]"
      by (simp add: contents_def st)
    also have "\<dots> = map (\<lambda>i. d ! ((rp + (k + i)) mod c)) [0..<sz - k]"
      by (simp add: mod_add_left_eq add.assoc)
    also have "\<dots> = drop k (contents s)"
    proof (rule nth_equalityI)
      show "length (map (\<lambda>i. d ! ((rp + (k + i)) mod c)) [0..<sz - k]) = length (drop k (contents s))"
        by (simp add: cs)
      fix i assume "i < length (map (\<lambda>i. d ! ((rp + (k + i)) mod c)) [0..<sz - k])"
      then have "i < sz - k" "k + i < sz" by simp_all
      then show "map (\<lambda>i. d ! ((rp + (k + i)) mod c)) [0..<sz - k] ! i = drop k (contents s) ! i"
        using k by (simp add: cs)
    qed
    finally show ?thesis using r out by simp
  qed
  then show "snd (read s len) = take k (contents s)"
    and "contents (fst (read s len)) = drop k (contents s)" by simp_all
qed

lemma write_data_wf:
  assumes wf: "buffer_wf s" and inv: "buffer_inv s" and cap: "buf_capacity s \<le> 2 ^ 31"
  shows "buffer_wf (fst (write_data s input))" "buf_capacity (fst (write_data s input)) = buf_capacity s"
proof -
  have "buffer_wf (fst (write_data s input)) \<and> buf_capacity (fst (write_data s input)) = buf_capacity s"
  proof (cases "to_write s (u32 (length input)) = 0")
    case True
    then show ?thesis using wf by (simp add: write_data_def internal_write_none)
  next
    case False
    obtain d where d: "buf_data s = Some d" and ld: "length d = buf_capacity s"
      using wf by (auto simp: buffer_wf_def)
    note b = buffer_inv_bounds[OF inv]
    have space: "get_available_space s = buf_capacity s - buf_size s"
      using d b cap by (simp add: get_available_space_def u32_sub_eq)
    have "u32 (length input) \<le> length input" by (simp add: u32_def)
    then have n: "to_write s (u32 (length input)) \<le> buf_capacity s"
       "to_write s (u32 (length input)) \<le> length input"
      unfolding to_write_def space by (auto split: if_splits)
    have "buf_capacity s < 2 ^ 32" using cap by simp
    then have "length (copied_in d (buf_capacity s) (buf_write_pos s) input (to_write s (u32 (length input)))) = buf_capacity s"
      using ld b n by (intro length_copied_in) simp_all
    then show ?thesis
      using internal_write_some[OF d False, of input] internal_write_data[OF d False, of input]
      by (simp add: write_data_def buffer_wf_def)
  qed
  then show "buffer_wf (fst (write_data s input))" "buf_capacity (fst (write_data s input)) = buf_capacity s"
    by simp_all
qed

lemma read_wf:
  assumes wf: "buffer_wf s"
  shows "buffer_wf (fst (read s len))" "buf_capacity (fst (read s len)) = buf_capacity s"
proof -
  obtain d where d: "buf_data s = Some d" and ld: "length d = buf_capacity s"
    using wf by (auto simp: buffer_wf_def)
  have "buffer_wf (fst (internal_read s k)) \<and> buf_capacity (fst (internal_read s k)) = buf_capacity s" for k
  proof (cases "to_read s k = 0")
    case True
    then show ?thesis using wf by (simp add: internal_read_none)
  next
    case False
    then show ?thesis using internal_read_some[OF d False] d ld by (simp add: buffer_wf_def)
  qed
  then show "buffer_wf (fst (read s len))" "buf_capacity (fst (read s len)) = buf_capacity s"
    using wf by (simp_all add: read_fst Let_def)
qed

section \<open>First in, first out\<close>

lemma length_contents: "buffer_wf s \<Longrightarrow> length (contents s) = buf_size s"
  by (auto simp: contents_def buffer_wf_def)

lemma run_ops_fifo:
  assumes "buffer_wf s" "buffer_inv s" "buf_capacity s \<le> 2 ^ 31"
    and "run_ops s ops = (s', accepted, returned)"
  shows "contents s @ accepted = returned @ contents s' \<and> buffer_wf s' \<and> buffer_inv s'
           \<and> buf_capacity s' = buf_capacity s"
  using assms
proof (induction ops arbitrary: s accepted returned)
  case Nil
  then show ?case by simp
next
  case (Cons op ops)
  show ?case
  proof (cases op)
    case (Write input)
    obtain s1 n where w: "write_data s input = (s1, n)" by (cases "write_data s input") auto
    obtain acc1 ret1 where r: "run_ops s1 ops = (s', acc1, ret1)"
      and acc: "accepted = take n input @ acc1" and ret: "returned = ret1"
      using Cons.prems(4) Write w by (auto split: prod.splits)
    have s1: "buffer_wf s1" "buffer_inv s1" "buf_capacity s1 = buf_capacity s"
      "contents s1 = contents s @ take n input"
      using write_data_wf[OF Cons.prems(1-3), of input] write_data_inv[OF Cons.prems(2,3), of input]
        contents_write[OF Cons.prems(1-3), of input] w by simp_all
    have "contents s1 @ acc1 = ret1 @ contents s' \<and> buffer_wf s' \<and> buffer_inv s'
           \<and> buf_capacity s' = buf_capacity s1"
      using s1 Cons.prems(3) r by (intro Cons.IH) simp_all
    then show ?thesis using s1 acc ret by simp
  next
    case (Read len)
    obtain s1 res where rd: "read s len = (s1, res)" by (cases "read s len") auto
    obtain acc1 ret1 where r: "run_ops s1 ops = (s', acc1, ret1)"
      and acc: "accepted = acc1" and ret: "returned = res @ ret1"
      using Cons.prems(4) Read rd by (auto split: prod.splits)
    define k where "k = (if len > 0 \<and> len \<le> buf_size s then len else buf_size s)"
    have s1: "buffer_wf s1" "buffer_inv s1" "buf_capacity s1 = buf_capacity s"
      "res = take k (contents s)" "contents s1 = drop k (contents s)"
      using read_wf[OF Cons.prems(1), of len] read_inv[OF Cons.prems(2,3), of len]
        contents_read[OF Cons.prems(1-3), of len] rd by (simp_all add: k_def)
    have "contents s1 @ acc1 = ret1 @ contents s' \<and> buffer_wf s' \<and> buffer_inv s'
           \<and> buf_capacity s' = buf_capacity s1"
      using s1 Cons.prems(3) r by (intro Cons.IH) simp_all
    then have "drop k (contents s) @ acc1 = ret1 @ contents s'" and rest: "buffer_wf s'" "buffer_inv s'"
      "buf_capacity s' = buf_capacity s" using s1 by simp_all
    then have "take k (contents s) @ drop k (contents s) @ acc1 = take k (contents s) @ ret1 @ contents s'"
      by simp
    then have "contents s @ acc1 = (take k (contents s) @ ret1) @ contents s'"
      by (simp only: append_assoc[symmetric] append_take_drop_id) 
    then show ?thesis using s1 acc ret rest by simp
  qed
qed

lemma initialize_wf:
  "capacity \<noteq> 0 \<or> default_capacity s \<noteq> 0 \<Longrightarrow> buffer_wf (initialize s capacity)"
  by (auto simp: buffer_wf_def initialize_def init_buffer_def free_buffer_def Let_def)

lemma initialize_contents: "contents (initialize s capacity) = []"
  by (auto simp: contents_def initialize_def init_buffer_def free_buffer_def Let_def)

lemma initialize_capacity:
  "buf_capacity (initialize s capacity) = (if capacity = 0 then default_capacity s else capacity)"
  by (auto simp: initialize_def init_buffer_def free_buffer_def Let_def)

lemma fifo_after_initialize:
  assumes "capacity \<le> 2 ^ 31"
    and "run_ops (initialize stream_buffer_cinit capacity) ops = (s', accepted, returned)"
  shows "prefix returned accepted"
    and "get_available_data s' = length accepted - length returned"
proof -
  let ?s = "initialize stream_buffer_cinit capacity"
  have d: "default_capacity stream_buffer_cinit = 8192" by (simp add: stream_buffer_cinit_def)
  have "buf_capacity ?s \<le> 2 ^ 31"
    using assms(1) by (simp add: initialize_capacity d)
  moreover have "buffer_wf ?s" "buffer_inv ?s"
    by (simp_all add: initialize_wf initialize_inv d)
  ultimately have "contents ?s @ accepted = returned @ contents s' \<and> buffer_wf s' \<and> buffer_inv s'
           \<and> buf_capacity s' = buf_capacity ?s"
    using assms(2) by (intro run_ops_fifo) simp_all
  then have eq: "accepted = returned @ contents s'" and wf: "buffer_wf s'"
    by (simp_all add: initialize_contents)
  show "prefix returned accepted" using eq by (simp add: prefix_def)
  have "get_available_data s' = buf_size s'" using wf by (auto simp: get_available_data_def buffer_wf_def)
  then show "get_available_data s' = length accepted - length returned"
    using eq length_contents[OF wf] by simp
qed

lemma write_data_accepts:
  assumes "buffer_wf s" "buffer_inv s" "buf_capacity s \<le> 2 ^ 31"
  shows "snd (write_data s input) = min (u32 (length input)) (get_available_space s)"
proof (cases "to_write s (u32 (length input)) = 0")
  case True
  then show ?thesis by (auto simp: write_data_def internal_write_none to_write_def split: if_splits)
next
  case False
  obtain d where d: "buf_data s = Some d" using assms(1) by (auto simp: buffer_wf_def)
  show ?thesis
    using internal_write_some(1)[OF d False, of input] by (simp add: write_data_def to_write_def min_def)
qed

lemma read_empty: "get_available_data s = 0 \<Longrightarrow> read s len = (s, [])"
  by (auto simp: read_def Let_def)

section \<open>The Matcher calls and the engines\<close>

lemma process_chunk_engines:
  "sm_ac_automaton m = sm_ac_automaton m' \<Longrightarrow> sm_regex_engine m = sm_regex_engine m' \<Longrightarrow>
     process_chunk lib m chunk n = process_chunk lib m' chunk n"
  by (auto simp: process_chunk_def split: sum.splits option.splits)


lemma smatcher_match_fields:
  "sm_ac_automaton (snd (smatcher_match lib m text)) = sm_ac_automaton m"
  "sm_regex_engine (snd (smatcher_match lib m text)) = sm_regex_engine m"
  "sm_streaming_mode (snd (smatcher_match lib m text)) = sm_streaming_mode m"
  "sm_stream_buffer (snd (smatcher_match lib m text)) = sm_stream_buffer m"
  by (simp_all add: smatcher_match_def split: sum.splits)

lemma smatcher_match_result:
  "fst (smatcher_match lib m text) = process_chunk lib m text (u32 (length text))"
  by (simp add: smatcher_match_def split: sum.splits)

lemma smatcher_feed_result:
  "sm_streaming_mode m \<Longrightarrow> fst (smatcher_feed lib m chunk) = process_chunk lib m chunk (u32 (length chunk))"
  by (simp add: smatcher_feed_def split: sum.splits)


lemma smatcher_cinit_engines:
  "sm_ac_automaton (smatcher_cinit lib patterns regex streaming)
     = sm_ac_automaton (smatcher_cinit lib patterns regex streaming')"
  "sm_regex_engine (smatcher_cinit lib patterns regex streaming)
     = sm_regex_engine (smatcher_cinit lib patterns regex streaming')"
  "sm_streaming_mode (smatcher_cinit lib patterns regex streaming) = streaming"
  by (simp_all add: smatcher_cinit_def smatcher_build_def Let_def)

lemma compare_from_error: "compare_from text p j ks = Inl e \<Longrightarrow> e = OutOfBounds"
  by (induction ks) (auto split: option.splits if_splits)

lemma scan_positions_error:
  "scan_positions t p pl bound j acc = Inl e \<Longrightarrow> e = OutOfBounds"
proof (induction t p pl bound j acc rule: scan_positions.induct)
  case (1 t pattern pattern_len bound j matches)
  show ?case
  proof (cases "j < bound")
    case False
    then show ?thesis using "1.prems" by (subst (asm) scan_positions.simps) simp
  next
    case True
    show ?thesis
    proof (cases "compare_from t pattern j [0..<pattern_len]")
      case (Inl e')
      then have "e = e'" using "1.prems" True by (subst (asm) scan_positions.simps) simp
      then show ?thesis using Inl compare_from_error by blast
    next
      case (Inr found)
      then show ?thesis
        using "1.prems" True "1.IH"[OF True Inr] by (subst (asm) scan_positions.simps) simp
    qed
  qed
qed

lemma scan_patterns_error:
  "scan_patterns text al ps acc = Inl e \<Longrightarrow> e = OutOfBounds"
proof (induction ps arbitrary: acc)
  case Nil
  then show ?case by simp
next
  case (Cons p ps)
  then show ?case
    by (auto simp: Let_def split: sum.splits dest: scan_positions_error)
qed

lemma sac_search_error: "sac_search a text n = Inl e \<Longrightarrow> e = OutOfBounds"
  by (auto simp: sac_search_def Let_def split: if_splits dest: scan_patterns_error)

lemma sre_match_loop_error:
  "sre_match_loop lib s cs acc = Inl e \<Longrightarrow> \<exists>msg. e = LibraryError msg"
  by (induction lib s cs acc rule: sre_match_loop.induct) (auto split: sum.splits)

lemma sre_match_error:
  "sre_match lib eng text n = Inl e \<Longrightarrow> e = UnicodeDecodeError \<or> (\<exists>msg. e = LibraryError msg)"
  by (auto simp: sre_match_def split: if_splits option.splits dest: sre_match_loop_error)

lemma process_chunk_error:
  "process_chunk lib m chunk n = Inl e \<Longrightarrow> e \<noteq> RuntimeError msg"
  by (auto simp: process_chunk_def split: sum.splits option.splits
      dest: sac_search_error sre_match_error)

lemma smatcher_feed_not_streaming:
  "\<not> sm_streaming_mode m \<Longrightarrow>
     smatcher_feed lib m chunk = (Inl (RuntimeError ''feed() can only be used in streaming mode''), m)"
  by (simp add: smatcher_feed_def)

lemma smatcher_feed_error_state:
  "fst (smatcher_feed lib m chunk) = Inl e \<Longrightarrow> snd (smatcher_feed lib m chunk) = m"
  by (auto simp: smatcher_feed_def split: if_splits sum.splits)

lemma smatcher_match_error_state:
  "fst (smatcher_match lib m t) = Inl e \<Longrightarrow> snd (smatcher_match lib m t) = m"
  by (auto simp: smatcher_match_def split: sum.splits)

lemma fmatcher_match_state: "snd (fmatcher_match cls lib m t) = m"
  by (auto simp: fmatcher_match_def split: sum.splits option.splits)

lemma fmatcher_match_result:
  "fst (fmatcher_match cls lib m t) = Inr [] \<or> (\<exists>e. fst (fmatcher_match cls lib m t) = Inl e)"
  by (auto simp: fmatcher_match_def fmatcher_combine_matches_def split: sum.splits option.splits)

lemma fmatcher_build_buffer:
  assumes "fmatcher_build cls lib m patterns regex = Some (m', printed)"
  shows "fm_streaming_mode m' = fm_streaming_mode m"
    and "fm_streaming_mode m \<Longrightarrow> fm_stream_buffer m' \<noteq> None"
  using assms
  by (auto simp: fmatcher_build_def Let_def split: option.splits list.splits if_splits prod.splits)

lemma sb_reset_clears: "sb_reset b = simple_buffer_cinit"
  by (simp add: sb_reset_def simple_buffer_cinit_def)

section \<open>The regex engines on a pattern list\<close>

lemma sre_compile_loop_closed:
  "sre_compile_loop lib ps acc =
     acc @ concat (map (\<lambda>p. case re_compile lib p of Inl msg \<Rightarrow> [] | Inr rx \<Rightarrow> [(p, rx)]) ps)"
  by (induction ps arbitrary: acc) (auto split: sum.splits)

lemma sre_match_loop_acc:
  "sre_match_loop lib s cs acc =
     (case sre_match_loop lib s cs [] of Inl e \<Rightarrow> Inl e | Inr r \<Rightarrow> Inr (acc @ r))"
proof (induction cs arbitrary: acc)
  case Nil
  then show ?case by simp
next
  case (Cons c cs)
  obtain p rx where c: "c = (p, rx)" by (cases c) auto
  show ?case
  proof (cases "re_finditer lib rx s")
    case (Inl e)
    then show ?thesis by (simp add: c)
  next
    case (Inr found)
    show ?thesis
      using Cons.IH[of "acc @ found_records p found"] Cons.IH[of "found_records p found"]
      by (simp add: c Inr split: sum.splits)
  qed
qed

lemma sre_match_loop_valid:
  "sre_match_loop lib s (sre_compile_loop lib ps []) [] = valid_pattern_matches lib s ps"
proof (induction ps)
  case Nil
  then show ?case by simp
next
  case (Cons p ps)
  show ?case
  proof (cases "re_compile lib p")
    case (Inl msg)
    then show ?thesis using Cons.IH by simp
  next
    case (Inr rx)
    have cl: "sre_compile_loop lib ps [(p, rx)] = (p, rx) # sre_compile_loop lib ps []"
      by (simp add: sre_compile_loop_closed[of lib ps "[(p, rx)]"] sre_compile_loop_closed[of lib ps "[]"])
    show ?thesis
    proof (cases "re_finditer lib rx s")
      case (Inl e)
      then show ?thesis using Inr by (simp add: cl)
    next
      case found: (Inr found)
      show ?thesis
        using Cons.IH Inr found sre_match_loop_acc[of lib s "sre_compile_loop lib ps []" "found_records p found"]
        by (simp add: cl)
    qed
  qed
qed

lemma sre_match_built:
  "sre_match lib (sre_build lib e ps) t n =
     (case decode_utf8 lib t of
        None \<Rightarrow> Inl UnicodeDecodeError
      | Some s \<Rightarrow> valid_pattern_matches lib s ps)"
  by (simp add: sre_match_def sre_build_def sre_match_loop_valid split: option.splits)

lemma fre_compile_loop_closed:
  "fre_compile_loop lib ps (cs, printed) =
     (cs @ map (\<lambda>p. case re_compile lib p of Inl msg \<Rightarrow> None | Inr rx \<Rightarrow> Some rx) ps,
      printed @ compile_diagnostics lib ps)"
  by (induction ps arbitrary: cs printed) (auto simp: compile_diagnostics_def split: sum.splits)

lemma fre_python_loop_acc:
  "fre_python_loop lib s all cs acc =
     (case fre_python_loop lib s all cs [] of Inl e \<Rightarrow> Inl e | Inr r \<Rightarrow> Inr (acc @ r))"
proof (induction cs arbitrary: acc)
  case Nil
  then show ?case by simp
next
  case (Cons c cs)
  obtain i x where c: "c = (i, x)" by (cases c) auto
  show ?case
  proof (cases x)
    case None
    then show ?thesis using Cons.IH[of acc] by (simp add: c)
  next
    case (Some rx)
    show ?thesis
    proof (cases "finditer lib rx s")
      case (Inl e)
      then show ?thesis by (simp add: c Some)
    next
      case (Inr found)
      show ?thesis
        using Cons.IH[of "acc @ python_records (all ! i) found"] Cons.IH[of "python_records (all ! i) found"]
        by (simp add: c Some Inr split: sum.splits)
    qed
  qed
qed

lemma fre_python_loop_valid:
  assumes "drop i all = ps"
  shows "fre_python_loop lib s all
           (enumerate_from i (map (\<lambda>p. case re_compile lib p of Inl msg \<Rightarrow> None | Inr rx \<Rightarrow> Some rx) ps)) []
         = valid_pattern_python_matches lib s ps"
  using assms
proof (induction ps arbitrary: i)
  case Nil
  then show ?case by simp
next
  case (Cons p ps)
  have p: "all ! i = p" using Cons.prems by (rule nth_via_drop)
  have "drop (Suc i) all = tl (drop i all)" by (simp add: drop_Suc tl_drop)
  then have d: "drop (Suc i) all = ps" using Cons.prems by simp
  note IH = Cons.IH[OF d]
  show ?case
  proof (cases "re_compile lib p")
    case (Inl msg)
    then show ?thesis using IH by simp
  next
    case (Inr rx)
    show ?thesis
    proof (cases "finditer lib rx s")
      case (Inl e)
      then show ?thesis using Inr by simp
    next
      case found: (Inr found)
      show ?thesis
        using IH Inr found
          fre_python_loop_acc[of lib s all
            "enumerate_from (Suc i) (map (\<lambda>p. case re_compile lib p of Inl msg \<Rightarrow> None | Inr rx \<Rightarrow> Some rx) ps)"
            "python_records p found"]
        by (simp add: p)
    qed
  qed
qed

lemma fre_build_closed:
  "fre_compiled_patterns (fst (fre_build lib e ps))
      = map (\<lambda>p. case re_compile lib p of Inl msg \<Rightarrow> None | Inr rx \<Rightarrow> Some rx) ps"
  "fre_pattern_strings (fst (fre_build lib e ps)) = ps"
  "snd (fre_build lib e ps) = compile_diagnostics lib ps"
  by (simp_all add: fre_build_def fre_compile_loop_closed)

lemma fre_match_with_python_re_built:
  "fre_match_with_python_re lib (fst (fre_build lib e ps)) s = valid_pattern_python_matches lib s ps"
  using fre_python_loop_valid[of 0 ps ps lib s]
  by (simp add: fre_match_with_python_re_def fre_build_closed)

section \<open>The buffer above \<open>2 ^ 31\<close> bytes\<close>

lemmas buffer_eval =
  initialize_def init_buffer_def free_buffer_def stream_buffer_cinit_def write_data_def
  internal_write_def read_def internal_read_def get_available_space_def
  get_available_data_def u32_def u32_sub_def Let_def memcpy_def

text \<open>
  C6. Every StreamBuffer operation (initialize, write, read, peek, clear) preserves the
  state invariant \<open>buffer_inv\<close>.

  The code keeps it while the capacity is at most \<open>2 ^ 31\<close> (\<open>initialize_inv\<close>,
  \<open>write_data_inv\<close>, \<open>read_inv\<close>, \<open>clear_inv\<close>; \<open>peek\<close> changes nothing). In a larger
  buffer the sum \<open>write_pos + bytes_to_write\<close> of \<open>_write\<close> leaves \<open>uint32_t\<close> before
  \<open>% capacity\<close> is taken. With a capacity of \<open>3 * 2 ^ 30\<close>: write \<open>2 ^ 31\<close> bytes, read
  them, write \<open>2 ^ 31\<close> bytes again. The write position is then 0 where
  \<open>(read_pos + size) mod capacity\<close> is \<open>2 ^ 30\<close>, and the invariant is broken.
\<close>

theorem invariant_broken_above_2_31:
  "(case run_ops (initialize stream_buffer_cinit 3221225472)
          [Write (replicate 2147483648 CHR ''a''), Read 2147483648,
           Write (replicate 2147483648 CHR ''b'')] of
      (s, accepted, returned) \<Rightarrow>
        buf_capacity s = 3221225472 \<and> buf_read_pos s = 2147483648 \<and>
        buf_size s = 2147483648 \<and> buf_write_pos s = 0 \<and> \<not> buffer_inv s)"
  by (simp add: buffer_eval buffer_inv_def)

text \<open>
  C5. After any sequence of writes and reads on an initialized buffer, the bytes returned
  by the reads are a prefix of the bytes accepted by the writes, \<open>available_data()\<close> is
  the difference of the two lengths, a write never overwrites unread data, and a read on
  an empty buffer returns nothing.

  The code does all of this while the capacity is at most \<open>2 ^ 31\<close>
  (\<open>fifo_after_initialize\<close>, \<open>contents_write\<close>, \<open>write_data_accepts\<close>, \<open>read_empty\<close>).
  In the larger buffer of C6 the misplaced write position makes the next write land on
  unread data: one more byte \<open>c\<close> is stored at index 0, over a \<open>b\<close> that was not read
  yet, and the final read returns \<open>c\<close> in the middle of the \<open>b\<close>s and a stale \<open>a\<close> at
  the end.
\<close>

theorem unread_data_overwritten_above_2_31:
  "(case run_ops (initialize stream_buffer_cinit 3221225472)
          [Write (replicate 2147483648 CHR ''a''), Read 2147483648,
           Write (replicate 2147483648 CHR ''b''), Write ''c'', Read 0] of
      (s, accepted, returned) \<Rightarrow>
        accepted = replicate 2147483648 CHR ''a'' @ replicate 2147483648 CHR ''b'' @ ''c'' \<and>
        returned = replicate 2147483648 CHR ''a'' @ replicate 1073741824 CHR ''b'' @
                   ''c'' @ replicate 1073741823 CHR ''b'' @ ''a'' \<and>
        \<not> prefix returned accepted)"
proof -
  have split: "replicate 2147483648 CHR ''b'' =
      replicate 1073741824 CHR ''b'' @ CHR ''b'' # replicate 1073741823 CHR ''b''"
  proof -
    have "replicate (1073741824 + Suc 1073741823) CHR ''b''
        = replicate 1073741824 CHR ''b'' @ CHR ''b'' # replicate 1073741823 CHR ''b''"
      by (simp only: replicate_add replicate_Suc)
    then show ?thesis by simp
  qed
  have "\<not> prefix (replicate 2147483648 CHR ''a'' @ replicate 1073741824 CHR ''b'' @
                   ''c'' @ replicate 1073741823 CHR ''b'' @ ''a'')
          (replicate 2147483648 CHR ''a'' @ replicate 2147483648 CHR ''b'' @ ''c'')"
    by (simp add: split)
  then show ?thesis
    by (simp add: buffer_eval)
qed

section \<open>Search before build\<close>

text \<open>
  C10. The simplified \<open>ACAutomaton.search\<close>, called on an automaton on which \<open>build\<close> was
  never called, returns the empty list for every text (and every \<open>text_len\<close>): it raises
  nothing and signals no not-built condition.
\<close>

theorem search_before_build_returns_empty:
  "sac_search sac_cinit text text_len = Inr []"
  by (simp add: sac_search_def sac_cinit_def)

section \<open>The trie search reports nothing\<close>

text \<open>
  \<open>_search\<close> of the trie automaton hands \<open>matches\<close> on unchanged at every byte: whenever
  it returns a list, that list is the empty one it started from.
\<close>

lemma trie_search_loop_keeps:
  "trie_search_loop nodes root current t matches = Some (Inr r) \<Longrightarrow> r = matches"
proof (induction t arbitrary: current)
  case Nil
  then show ?case by simp
next
  case (Cons c cs)
  from Cons.prems obtain cur' where
    "trie_search_loop nodes root cur' cs matches = Some (Inr r)"
    by (auto simp: Let_def split: option.splits sum.splits if_splits)
  then show ?case by (rule Cons.IH)
qed

lemma trie_search_reports_nothing: "trie_search a t = Some (Inr r) \<Longrightarrow> r = []"
  unfolding trie_search_def by (rule trie_search_loop_keeps)

section \<open>The occurrences the simplified search reports\<close>

lemmas search_eval =
  sac_search_def sac_build_def sac_cinit_def scan_positions.simps byte_at_def u32_def u32_sub_def
  Let_def upt_conv_Cons

lemmas smatcher_eval =
  smatcher_cinit_def smatcher_build_def smatcher_match_def smatcher_feed_def process_chunk_def
  combine_matches_def c_string_def

lemmas spec_eval = occurrence_records_def occurrences_def upt_conv_Cons

text \<open>
  Where no pattern is longer than the text by more than one byte, the search returns the
  occurrences of every pattern, as a multiset and in fact as a list.
\<close>

lemma sac_search_multiset:
  assumes "length t + 1 < 2 ^ 32" and "\<forall>p\<in>set P. length p \<le> Suc (length t)"
  shows "map_sum id mset (sac_search (sac_build a P) t 0)
           = Inr (\<Sum>p\<in>#mset P. mset (occurrence_records t p))"
proof -
  have "mset (concat (map (occurrence_records t) P)) = (\<Sum>p\<in>#mset P. mset (occurrence_records t p))"
    by (induction P) simp_all
  then show ?thesis
    using sac_search_closed[OF assms, of 0 a] by simp
qed

text \<open>
  C1. After \<open>build(P)\<close>, \<open>search(T)\<close> returns exactly the occurrences of the patterns of
  \<open>P\<close> in \<open>T\<close>, as a multiset.

  The simplified search does so while every pattern is at most one byte longer than the
  text (\<open>sac_search_closed\<close>, \<open>sac_search_multiset\<close>). For a longer pattern the bound
  \<open>actual_len - pattern_len + 1\<close> of the loop over the start positions is computed in
  \<open>uint32_t\<close> and wraps: with the pattern \<open>abc\<close> and the text \<open>a\<close> it is \<open>2 ^ 32 - 1\<close>
  where the claim has no position at all, and at start position 2 the comparison reads
  beyond the bytes object. The claim's answer is the empty list.
\<close>

theorem long_pattern_reads_past_text:
  "sac_search (sac_build sac_cinit [''abc'']) ''a'' 0 = Inl OutOfBounds
   \<and> occurrence_records ''a'' ''abc'' = []"
  by (simp add: search_eval spec_eval)

section \<open>Feeding chunks and matching the whole text\<close>



text \<open>
  The pattern \<open>banana\<close> in the chunks \<open>bana\<close> and \<open>nana\<close>: the pattern is two bytes longer
  than the first chunk, and the search of that chunk alone leaves the chunk.
\<close>

lemma banana_chunks_leave_the_chunk:
  "feed_all literal_re (smatcher_cinit literal_re (Some [''banana'']) None True)
     [''bana'', ''nana'', ''''] = Inl OutOfBounds"
  by (simp add: search_eval smatcher_eval)

section \<open>The search with the reads of the pattern left open: what it returns\<close>

text \<open>
  On a block that keeps the encoded pattern, and for patterns of one-byte characters,
  the search with the reads left open is \<open>sac_search\<close>.
\<close>

lemma utf8_encode_one_byte: "one_byte_characters s \<Longrightarrow> utf8_encode s = s"
  by (induction s) (simp_all add: utf8_encode_def one_byte_characters_def)

lemma compare_from_reading_intact:
  assumes "\<forall>k\<in>set ks. rd k = Some (p ! k)"
  shows "compare_from_reading rd t j ks = compare_from t p j ks"
  using assms by (induction ks) (simp_all split: option.splits)

lemma scan_positions_reading_intact:
  "(\<forall>j k. k < pattern_len \<longrightarrow> rd j k = Some (p ! k)) \<Longrightarrow>
     scan_positions_reading rd t p pattern_len bound j ms
       = scan_positions t p pattern_len bound j ms"
proof (induction t p pattern_len bound j ms rule: scan_positions.induct)
  case (1 t pattern pattern_len bound j matches)
  have c: "compare_from_reading (rd j) t j [0..<pattern_len]
             = compare_from t pattern j [0..<pattern_len]"
    by (rule compare_from_reading_intact) (use "1.prems" in simp)
  show ?case
  proof (cases "j < bound")
    case False
    then show ?thesis
      by (subst scan_positions_reading.simps, subst scan_positions.simps) simp
  next
    case True
    show ?thesis
    proof (cases "compare_from t pattern j [0..<pattern_len]")
      case (Inl e)
      then show ?thesis
        using True c by (subst scan_positions_reading.simps, subst scan_positions.simps) simp
    next
      case (Inr found)
      have "scan_positions_reading rd t pattern pattern_len bound (Suc j)
              (if found then matches @ [\<lparr>match_pattern = pattern, match_start = j,
                                          match_end = u32 (j + pattern_len)\<rparr>] else matches)
          = scan_positions t pattern pattern_len bound (Suc j)
              (if found then matches @ [\<lparr>match_pattern = pattern, match_start = j,
                                          match_end = u32 (j + pattern_len)\<rparr>] else matches)"
        using "1.IH"[OF True Inr] "1.prems" by simp
      then show ?thesis
        using True c Inr
        by (subst scan_positions_reading.simps, subst scan_positions.simps) simp
    qed
  qed
qed

lemma scan_patterns_reading_intact:
  "(\<forall>n<length ps. \<forall>j k. k < length (ps ! n) \<longrightarrow> rd (i + n) j k = Some (ps ! n ! k)) \<Longrightarrow>
     scan_patterns_reading rd t actual_len i ps ms = scan_patterns t actual_len ps ms"
proof (induction ps arbitrary: i ms)
  case Nil
  then show ?case by simp
next
  case (Cons p ps)
  have le: "u32 (length p) \<le> length p" by (simp add: u32_def)
  have "\<forall>j k. k < u32 (length p) \<longrightarrow> rd i j k = Some (p ! k)"
  proof (intro allI impI)
    fix j k assume "k < u32 (length p)"
    then have "k < length ((p # ps) ! 0)" using le by simp
    then show "rd i j k = Some (p ! k)" using Cons.prems by fastforce
  qed
  then have h: "scan_positions_reading (rd i) t p (u32 (length p)) bound 0 ms
      = scan_positions t p (u32 (length p)) bound 0 ms" for bound
    by (rule scan_positions_reading_intact)
  have t: "\<forall>n<length ps. \<forall>j k. k < length (ps ! n) \<longrightarrow> rd (Suc i + n) j k = Some (ps ! n ! k)"
  proof (intro allI impI)
    fix n j k assume n: "n < length ps" and k: "k < length (ps ! n)"
    have "rd (i + Suc n) j k = Some ((p # ps) ! Suc n ! k)"
      using Cons.prems n k by (metis length_Cons Suc_less_eq nth_Cons_Suc)
    then show "rd (Suc i + n) j k = Some (ps ! n ! k)" by simp
  qed
  show ?case
    using Cons.IH[OF t] by (simp add: h Let_def split: sum.splits)
qed

lemma sac_search_reading_intact:
  assumes "\<forall>p\<in>set (sac_patterns a). one_byte_characters p"
  shows "sac_search_reading (intact_reads (sac_patterns a)) a t n = sac_search a t n"
proof -
  have "\<forall>m<length (sac_patterns a). \<forall>j k. k < length (sac_patterns a ! m) \<longrightarrow>
          intact_reads (sac_patterns a) (0 + m) j k = Some (sac_patterns a ! m ! k)"
    using assms by (simp add: intact_reads_def utf8_encode_one_byte byte_at_def)
  then have "scan_patterns_reading (intact_reads (sac_patterns a)) t al 0 (sac_patterns a) []
      = scan_patterns t al (sac_patterns a) []" for al
    by (rule scan_patterns_reading_intact)
  then show ?thesis
    by (simp add: sac_search_reading_def sac_search_def)
qed

lemma sac_search_reading_closed:
  assumes "length t + 1 < 2 ^ 32" and "\<forall>p\<in>set P. length p \<le> Suc (length t)"
    and "\<forall>p\<in>set P. one_byte_characters p" and "text_len = 0 \<or> text_len = length t"
  shows "sac_search_reading (intact_reads P) (sac_build a P) t text_len
           = Inr (concat (map (occurrence_records t) P))"
proof -
  have "sac_search_reading (intact_reads (sac_patterns (sac_build a P))) (sac_build a P) t text_len
      = sac_search (sac_build a P) t text_len"
    by (rule sac_search_reading_intact) (use assms(3) in \<open>simp add: sac_build_def\<close>)
  then show ?thesis
    using sac_search_closed[OF assms(1,2,4), of a] by (simp add: sac_build_def)
qed

text \<open>
  A character of two bytes: \<open>len\<close> counts it once, and the comparison stops after the
  first byte of its encoding. A block that is reused after the first record: the later
  reads find other bytes, and the second occurrence is not reported.
\<close>

lemma utf8_encode_e_acute: "utf8_encode [CHR 0xE9] = [CHR 0xC3, CHR 0xA9]"
  by code_simp

lemma two_byte_character_short_span:
  "sac_search_reading (intact_reads [[CHR 0xE9]]) (sac_build sac_cinit [[CHR 0xE9]])
        (utf8_encode [CHR 0xE9]) 0
     = Inr [\<lparr>match_pattern = [CHR 0xE9], match_start = 0, match_end = 1\<rparr>]"
  by (simp add: sac_search_reading_def sac_build_def sac_cinit_def scan_positions_reading.simps
      intact_reads_def utf8_encode_e_acute byte_at_def u32_def u32_sub_def Let_def upt_conv_Cons)

lemma reused_block_loses_a_record:
  "sac_search_reading (\<lambda>i j k. if j < 1 then Some CHR ''a'' else Some CHR 0x00)
        (sac_build sac_cinit [''a'']) ''aa'' 0
     = Inr [\<lparr>match_pattern = ''a'', match_start = 0, match_end = 1\<rparr>]
   \<and> sac_search (sac_build sac_cinit [''a'']) ''aa'' 0
     = Inr [\<lparr>match_pattern = ''a'', match_start = 0, match_end = 1\<rparr>,
            \<lparr>match_pattern = ''a'', match_start = 1, match_end = 2\<rparr>]"
  by (simp add: sac_search_reading_def sac_search_def sac_build_def sac_cinit_def
      scan_positions_reading.simps scan_positions.simps
      byte_at_def u32_def u32_sub_def Let_def upt_conv_Cons)




lemma process_chunk_reading_engines:
  "sm_ac_automaton m = sm_ac_automaton m' \<Longrightarrow> sm_regex_engine m = sm_regex_engine m' \<Longrightarrow>
     process_chunk_reading rd lib m chunk n = process_chunk_reading rd lib m' chunk n"
  by (auto simp: process_chunk_reading_def split: sum.splits option.splits)

lemma process_chunk_reading_intact:
  assumes "\<forall>a. sm_ac_automaton m = Some a \<longrightarrow> rd = intact_reads (sac_patterns a)
             \<and> (\<forall>p\<in>set (sac_patterns a). one_byte_characters p)"
  shows "process_chunk_reading rd lib m chunk n = process_chunk lib m chunk n"
proof (cases "sm_ac_automaton m")
  case None
  then show ?thesis by (simp add: process_chunk_reading_def process_chunk_def)
next
  case (Some a)
  then have "sac_search_reading rd a (c_string chunk) n = sac_search a (c_string chunk) n"
    using assms sac_search_reading_intact[of a "c_string chunk" n] by simp
  then show ?thesis using Some by (simp add: process_chunk_reading_def process_chunk_def)
qed

lemma smatcher_match_reading_intact:
  assumes "\<forall>a. sm_ac_automaton m = Some a \<longrightarrow> rd = intact_reads (sac_patterns a)
             \<and> (\<forall>p\<in>set (sac_patterns a). one_byte_characters p)"
  shows "smatcher_match_reading rd lib m t = smatcher_match lib m t"
    and "smatcher_feed_reading rd lib m t = smatcher_feed lib m t"
  using process_chunk_reading_intact[OF assms]
  by (simp_all add: smatcher_match_reading_def smatcher_match_def smatcher_feed_reading_def
      smatcher_feed_def)

lemma smatcher_match_reading_result:
  "fst (smatcher_match_reading rd lib m t) = process_chunk_reading rd lib m t (u32 (length t))"
  by (simp add: smatcher_match_reading_def split: sum.splits)


lemma smatcher_match_reading_fields:
  "sm_ac_automaton (snd (smatcher_match_reading rd lib m t)) = sm_ac_automaton m"
  "sm_regex_engine (snd (smatcher_match_reading rd lib m t)) = sm_regex_engine m"
  "sm_streaming_mode (snd (smatcher_match_reading rd lib m t)) = sm_streaming_mode m"
  "sm_stream_buffer (snd (smatcher_match_reading rd lib m t)) = sm_stream_buffer m"
  by (simp_all add: smatcher_match_reading_def split: sum.splits)

lemma smatcher_match_reading_total:
  "sm_total_matches (snd (smatcher_match_reading rd lib m t))
     = (case fst (smatcher_match_reading rd lib m t) of
          Inl e \<Rightarrow> sm_total_matches m
        | Inr rs \<Rightarrow> u32 (sm_total_matches m + length rs))"
  by (simp add: smatcher_match_reading_def split: sum.splits)

section \<open>The order of the records of one call\<close>




section \<open>Mode errors\<close>

text \<open>
  C4. \<open>feed\<close> fails with a mode error exactly when streaming mode is off, \<open>match\<close> fails
  with a mode error exactly when streaming mode is on, and a call that fails so leaves the
  Matcher as it was.

  What the code gives: the half about \<open>feed\<close>, and no mode error from \<open>match\<close> at all.
  In both Matchers \<open>feed\<close> raises its mode error exactly when streaming mode is off; a
  \<open>feed\<close> that fails leaves the Matcher unchanged; \<open>match\<close> never looks at the mode: it
  raises no \<open>RuntimeError\<close> in the simplified Matcher, and in both Matchers its result is
  the same with the mode switched either way. On a Matcher that \<open>build\<close> returned, \<open>feed\<close>
  over the circular buffer fails only when streaming mode is off.
\<close>

theorem mode_error_only_from_feed:
  "(fst (smatcher_feed lib m chunk) = Inl (RuntimeError ''feed() can only be used in streaming mode'')
      \<longleftrightarrow> \<not> sm_streaming_mode m)
   \<and> (\<forall>e. fst (smatcher_feed lib m chunk) = Inl e \<longrightarrow> snd (smatcher_feed lib m chunk) = m)
   \<and> (\<forall>msg. fst (smatcher_match lib m t) \<noteq> Inl (RuntimeError msg))
   \<and> fst (smatcher_match lib (m\<lparr>sm_streaming_mode := b\<rparr>) t) = fst (smatcher_match lib m t)
   \<and> (fst (fmatcher_feed fm chunk)
          = Inl (RuntimeError ''Streaming mode not enabled. Use match() for batch processing.'')
        \<longleftrightarrow> \<not> fm_streaming_mode fm)
   \<and> (\<not> fm_streaming_mode fm \<longrightarrow> snd (fmatcher_feed fm chunk) = fm)
   \<and> (\<forall>fm' printed. fmatcher_build cls lib' fm patterns regex = Some (fm', printed) \<longrightarrow>
         ((\<exists>e. fst (fmatcher_feed fm' chunk) = Inl e) \<longleftrightarrow> \<not> fm_streaming_mode fm'))
   \<and> fst (fmatcher_match cls lib' (fm\<lparr>fm_streaming_mode := b\<rparr>) t) = fst (fmatcher_match cls lib' fm t)"
proof (intro conjI)
  show "fst (smatcher_feed lib m chunk) = Inl (RuntimeError ''feed() can only be used in streaming mode'')
      \<longleftrightarrow> \<not> sm_streaming_mode m"
  proof
    assume a: "fst (smatcher_feed lib m chunk) = Inl (RuntimeError ''feed() can only be used in streaming mode'')"
    show "\<not> sm_streaming_mode m"
    proof
      assume "sm_streaming_mode m"
      then have "process_chunk lib m chunk (u32 (length chunk))
          = Inl (RuntimeError ''feed() can only be used in streaming mode'')"
        using a by (simp add: smatcher_feed_result)
      then show False using process_chunk_error by blast
    qed
  next
    assume "\<not> sm_streaming_mode m"
    then show "fst (smatcher_feed lib m chunk) = Inl (RuntimeError ''feed() can only be used in streaming mode'')"
      by (simp add: smatcher_feed_not_streaming)
  qed
  show "\<forall>e. fst (smatcher_feed lib m chunk) = Inl e \<longrightarrow> snd (smatcher_feed lib m chunk) = m"
    using smatcher_feed_error_state by blast
  show "\<forall>msg. fst (smatcher_match lib m t) \<noteq> Inl (RuntimeError msg)"
    unfolding smatcher_match_result using process_chunk_error by blast
  show "fst (smatcher_match lib (m\<lparr>sm_streaming_mode := b\<rparr>) t) = fst (smatcher_match lib m t)"
    using process_chunk_engines[of "m\<lparr>sm_streaming_mode := b\<rparr>" m lib t] by (simp add: smatcher_match_result)
  show "fst (fmatcher_feed fm chunk)
          = Inl (RuntimeError ''Streaming mode not enabled. Use match() for batch processing.'')
        \<longleftrightarrow> \<not> fm_streaming_mode fm"
    by (auto simp: fmatcher_feed_def split: option.splits prod.splits)
  show "\<not> fm_streaming_mode fm \<longrightarrow> snd (fmatcher_feed fm chunk) = fm"
    by (simp add: fmatcher_feed_def)
  show "\<forall>fm' printed. fmatcher_build cls lib' fm patterns regex = Some (fm', printed) \<longrightarrow>
         ((\<exists>e. fst (fmatcher_feed fm' chunk) = Inl e) \<longleftrightarrow> \<not> fm_streaming_mode fm')"
  proof (intro allI impI)
    fix fm' printed
    assume b: "fmatcher_build cls lib' fm patterns regex = Some (fm', printed)"
    show "(\<exists>e. fst (fmatcher_feed fm' chunk) = Inl e) \<longleftrightarrow> \<not> fm_streaming_mode fm'"
      using fmatcher_build_buffer[OF b]
      by (auto simp: fmatcher_feed_def split: option.splits prod.splits)
  qed
  show "fst (fmatcher_match cls lib' (fm\<lparr>fm_streaming_mode := b\<rparr>) t) = fst (fmatcher_match cls lib' fm t)"
    by (auto simp: fmatcher_match_def split: sum.splits option.splits)
qed

text \<open>
  The theorem on Matchers for the pattern \<open>a\<close> with streaming mode off: \<open>feed\<close> of the
  simplified Matcher, \<open>feed\<close> over the circular buffer before \<open>build\<close>, and after it.
\<close>

theorem mode_error_only_from_feed_witness:
  "fst (smatcher_feed literal_re (smatcher_cinit literal_re (Some [''a'']) None False) ''a'')
     = Inl (RuntimeError ''feed() can only be used in streaming mode'')
   \<and> snd (smatcher_feed literal_re (smatcher_cinit literal_re (Some [''a'']) None False) ''a'')
     = smatcher_cinit literal_re (Some [''a'']) None False
   \<and> snd (fmatcher_feed
            \<lparr>fm_ac_automaton = None, fm_regex_engine = None, fm_stream_buffer = None,
             fm_streaming_mode = False, fm_total_matches = 0,
             fm_ac_patterns = [], fm_regex_patterns = []\<rparr> ''a'')
     = (\<lparr>fm_ac_automaton = None, fm_regex_engine = None, fm_stream_buffer = None,
        fm_streaming_mode = False, fm_total_matches = 0,
        fm_ac_patterns = [], fm_regex_patterns = []\<rparr> :: (sac_automaton, string) fmatcher)
   \<and> fmatcher_build simple_ac_class literal_re
        \<lparr>fm_ac_automaton = None, fm_regex_engine = None, fm_stream_buffer = None,
         fm_streaming_mode = False, fm_total_matches = 0,
         fm_ac_patterns = [], fm_regex_patterns = []\<rparr> (Some [''a'']) None
     = Some (\<lparr>fm_ac_automaton = Some (sac_build sac_cinit [''a'']),
             fm_regex_engine = (None :: string fre_engine option),
              fm_stream_buffer = None, fm_streaming_mode = False, fm_total_matches = 0,
              fm_ac_patterns = [''a''], fm_regex_patterns = []\<rparr>, [])
   \<and> fst (fmatcher_feed
            \<lparr>fm_ac_automaton = Some (sac_build sac_cinit [''a'']),
             fm_regex_engine = (None :: string fre_engine option),
             fm_stream_buffer = None, fm_streaming_mode = False, fm_total_matches = 0,
             fm_ac_patterns = [''a''], fm_regex_patterns = []\<rparr> ''a'') \<noteq> Inr []"
proof -
  note T = mode_error_only_from_feed[where lib = literal_re
      and m = "smatcher_cinit literal_re (Some [''a'']) None False" and chunk = "''a''"
      and fm = "\<lparr>fm_ac_automaton = None, fm_regex_engine = None, fm_stream_buffer = None,
             fm_streaming_mode = False, fm_total_matches = 0,
             fm_ac_patterns = [], fm_regex_patterns = []\<rparr>"
      and cls = simple_ac_class and lib' = literal_re and patterns = "Some [''a'']"
      and regex = None]
  have ns: "\<not> sm_streaming_mode (smatcher_cinit literal_re (Some [''a'']) None False)"
    by (simp add: smatcher_cinit_engines(3))
  have a: "fst (smatcher_feed literal_re (smatcher_cinit literal_re (Some [''a'']) None False) ''a'')
     = Inl (RuntimeError ''feed() can only be used in streaming mode'')"
    using T[THEN conjunct1] ns by blast
  have b: "snd (smatcher_feed literal_re (smatcher_cinit literal_re (Some [''a'']) None False) ''a'')
     = smatcher_cinit literal_re (Some [''a'']) None False"
    using T[THEN conjunct2, THEN conjunct1] a by blast
  have c: "snd (fmatcher_feed
            \<lparr>fm_ac_automaton = None, fm_regex_engine = None, fm_stream_buffer = None,
             fm_streaming_mode = False, fm_total_matches = 0,
             fm_ac_patterns = [], fm_regex_patterns = []\<rparr> ''a'')
     = (\<lparr>fm_ac_automaton = None, fm_regex_engine = None, fm_stream_buffer = None,
        fm_streaming_mode = False, fm_total_matches = 0,
        fm_ac_patterns = [], fm_regex_patterns = []\<rparr> :: (sac_automaton, string) fmatcher)"
    using T[THEN conjunct2, THEN conjunct2, THEN conjunct2, THEN conjunct2, THEN conjunct2,
        THEN conjunct1]
    by simp
  have d: "fmatcher_build simple_ac_class literal_re
        \<lparr>fm_ac_automaton = None, fm_regex_engine = None, fm_stream_buffer = None,
         fm_streaming_mode = False, fm_total_matches = 0,
         fm_ac_patterns = [], fm_regex_patterns = []\<rparr> (Some [''a'']) None
     = Some (\<lparr>fm_ac_automaton = Some (sac_build sac_cinit [''a'']),
             fm_regex_engine = (None :: string fre_engine option),
              fm_stream_buffer = None, fm_streaming_mode = False, fm_total_matches = 0,
              fm_ac_patterns = [''a''], fm_regex_patterns = []\<rparr>, [])"
    by (simp add: fmatcher_build_def simple_ac_class_def)
  have "(\<exists>e. fst (fmatcher_feed
            \<lparr>fm_ac_automaton = Some (sac_build sac_cinit [''a'']),
             fm_regex_engine = (None :: string fre_engine option),
             fm_stream_buffer = None, fm_streaming_mode = False, fm_total_matches = 0,
             fm_ac_patterns = [''a''], fm_regex_patterns = []\<rparr> ''a'') = Inl e)
      \<longleftrightarrow> \<not> fm_streaming_mode
            \<lparr>fm_ac_automaton = Some (sac_build sac_cinit [''a'']),
             fm_regex_engine = (None :: string fre_engine option),
             fm_stream_buffer = None, fm_streaming_mode = False, fm_total_matches = 0,
             fm_ac_patterns = [''a''], fm_regex_patterns = []\<rparr>"
    using T[THEN conjunct2, THEN conjunct2, THEN conjunct2, THEN conjunct2, THEN conjunct2,
        THEN conjunct2, THEN conjunct1] d
    by blast
  then have e: "fst (fmatcher_feed
            \<lparr>fm_ac_automaton = Some (sac_build sac_cinit [''a'']),
             fm_regex_engine = (None :: string fre_engine option),
             fm_stream_buffer = None, fm_streaming_mode = False, fm_total_matches = 0,
             fm_ac_patterns = [''a''], fm_regex_patterns = []\<rparr> ''a'') \<noteq> Inr []"
    by auto
  show ?thesis
    using a b c d e by (intro conjI)
qed

text \<open>
  A Matcher in streaming mode accepts \<open>match\<close>: for the pattern \<open>a\<close> and the text \<open>a\<close> it
  returns the record, where the claim has a mode error.
\<close>

theorem match_accepted_in_streaming_mode:
  "fst (smatcher_match literal_re (smatcher_cinit literal_re (Some [''a'']) None True) ''a'')
     = Inr [\<lparr>mr_type = ''ac'', mr_pattern = ''a'', mr_start = 0, mr_end = 1, mr_matched = None\<rparr>]"
  by (simp add: search_eval smatcher_eval)

section \<open>The builds on every pattern list\<close>

lemma sre_compile_loop_raising_fst:
  "fst (sre_compile_loop_raising lib ps acc) = compile_exception lib ps"
  by (induction ps arbitrary: acc) (auto split: option.splits sum.splits)

lemma sre_compile_loop_raising_none:
  "compile_exception lib ps = None \<Longrightarrow>
     sre_compile_loop_raising lib ps acc = (None, sre_compile_loop lib ps acc)"
  by (induction ps arbitrary: acc) (auto split: option.splits sum.splits)

lemma sre_build_raising_fst: "fst (sre_build_raising lib e ps) = compile_exception lib ps"
  using sre_compile_loop_raising_fst[of lib ps "[]"]
  by (auto simp: sre_build_raising_def split: prod.splits option.splits)

lemma sre_build_raising_none:
  "compile_exception lib ps = None \<Longrightarrow> sre_build_raising lib e ps = (None, sre_build lib e ps)"
  by (simp add: sre_build_raising_def sre_compile_loop_raising_none sre_build_def)

lemma sre_build_raising_built:
  "sre_built (snd (sre_build_raising lib e ps)) = (compile_exception lib ps = None \<or> sre_built e)"
  using sre_compile_loop_raising_fst[of lib ps "[]"]
  by (auto simp: sre_build_raising_def split: prod.splits option.splits)

lemma fre_compile_loop_raising_fst:
  "fst (fre_compile_loop_raising lib ps (cs, printed)) = compile_exception lib ps"
  by (induction ps arbitrary: cs printed) (auto split: option.splits sum.splits)

lemma fre_compile_loop_raising_none:
  "compile_exception lib ps = None \<Longrightarrow>
     fre_compile_loop_raising lib ps (cs, printed) = (None, fre_compile_loop lib ps (cs, printed))"
  by (induction ps arbitrary: cs printed) (auto split: option.splits sum.splits)

lemma fre_build_raising_fst: "fst (fre_build_raising lib e ps) = compile_exception lib ps"
  using fre_compile_loop_raising_fst[of lib ps "[]" "[]"]
  by (auto simp: fre_build_raising_def split: prod.splits)

lemma fre_build_raising_none:
  "compile_exception lib ps = None \<Longrightarrow> fre_build_raising lib e ps = (None, fre_build lib e ps)"
  by (simp add: fre_build_raising_def fre_compile_loop_raising_none fre_build_def split: prod.splits)

lemma fre_match_empty: "fre_match eng t pattern_id = []"
  by (simp add: fre_match_def)

section \<open>A pattern that does not compile\<close>

text \<open>
  C7. \<open>RegexEngine.build\<close> never aborts on a pattern that is no valid regex: the pattern
  is dropped with a diagnostic, the build completes, and a scan reports the matches of
  every valid pattern; with the patterns \<open>(\<close> and \<open>foo\<close> the scan of \<open>foo\<close> returns exactly
  one match, for \<open>foo\<close>.

  What the code gives: \<open>build\<close> drops a pattern on which \<open>re.compile\<close> raises \<open>re.error\<close>
  and goes on; any other exception of \<open>re.compile\<close> leaves \<open>build\<close> (\<open>compile_exception\<close>).
  Where no pattern raises such an exception the build completes and keeps exactly the
  patterns that compile, in their order. The engine with \<open>built\<close> drops a pattern
  without a diagnostic, and its \<open>match\<close> reports the matches of the patterns it kept. The
  engine with \<open>_compile_patterns\<close> prints one line for each dropped pattern; its \<open>match\<close>
  returns the empty list for every text, and its \<open>_match_with_python_re\<close> reports the
  matches of the patterns it kept. With \<open>(\<close> and \<open>foo\<close> both builds complete and drop
  \<open>(\<close>; the scan of \<open>foo\<close> returns the one match by \<open>match\<close> of the first engine and by
  \<open>_match_with_python_re\<close> of the second.
\<close>

theorem invalid_regex_is_dropped:
  "fst (sre_build_raising lib e ps) = compile_exception lib ps
   \<and> (compile_exception lib ps = None \<longrightarrow> snd (sre_build_raising lib e ps) = sre_build lib e ps)
   \<and> sre_built (snd (sre_build_raising lib e ps)) = (compile_exception lib ps = None \<or> sre_built e)
   \<and> sre_compiled_patterns (sre_build lib e ps)
       = concat (map (\<lambda>p. case re_compile lib p of Inl msg \<Rightarrow> [] | Inr rx \<Rightarrow> [(p, rx)]) ps)
   \<and> sre_match lib (sre_build lib e ps) t n
       = (case decode_utf8 lib t of
            None \<Rightarrow> Inl UnicodeDecodeError
          | Some s \<Rightarrow> valid_pattern_matches lib s ps)
   \<and> fst (fre_build_raising lib e' ps) = compile_exception lib ps
   \<and> (compile_exception lib ps = None \<longrightarrow> snd (fre_build_raising lib e' ps) = fre_build lib e' ps)
   \<and> snd (fre_build lib e' ps) = compile_diagnostics lib ps
   \<and> fre_compiled_patterns (fst (fre_build lib e' ps))
       = map (\<lambda>p. case re_compile lib p of Inl msg \<Rightarrow> None | Inr rx \<Rightarrow> Some rx) ps
   \<and> fre_match eng t pattern_id = []
   \<and> fre_match_with_python_re lib (fst (fre_build lib e' ps)) tx
       = valid_pattern_python_matches lib tx ps
   \<and> (re_compile_raises lib ''('' = None \<and> re_compile_raises lib ''foo'' = None
        \<and> re_compile lib ''('' = Inl msg \<and> re_compile lib ''foo'' = Inr rx
        \<and> re_finditer lib rx ''foo'' = Inr [(0, 3, ''foo'')] \<and> decode_utf8 lib ''foo'' = Some ''foo''
      \<longrightarrow> fst (sre_build_raising lib sre_cinit [''('', ''foo'']) = None
        \<and> sre_built (snd (sre_build_raising lib sre_cinit [''('', ''foo'']))
        \<and> sre_compiled_patterns (snd (sre_build_raising lib sre_cinit [''('', ''foo'']))
            = [(''foo'', rx)]
        \<and> sre_match lib (snd (sre_build_raising lib sre_cinit [''('', ''foo''])) ''foo'' 0
            = Inr [\<lparr>rm_pattern = ''foo'', rm_start = 0, rm_end = 3, rm_matched = ''foo''\<rparr>]
        \<and> fst (fre_build_raising lib fre_cinit [''('', ''foo'']) = None
        \<and> snd (snd (fre_build_raising lib fre_cinit [''('', ''foo'']))
            = [''Error compiling pattern (: '' @ msg]
        \<and> fre_match (fst (snd (fre_build_raising lib fre_cinit [''('', ''foo'']))) ''foo'' (- 1) = []
        \<and> fre_match_with_python_re lib
              (fst (snd (fre_build_raising lib fre_cinit [''('', ''foo'']))) (Str ''foo'')
            = Inr [\<lparr>pm_type = ''regex'', pm_pattern = ''foo'', pm_start = 0, pm_end = 3,
                    pm_matched_text = Str ''foo''\<rparr>])"
proof (intro conjI impI)
  show "fst (sre_build_raising lib e ps) = compile_exception lib ps"
    by (rule sre_build_raising_fst)
  show "snd (sre_build_raising lib e ps) = sre_build lib e ps" if "compile_exception lib ps = None"
    using that by (simp add: sre_build_raising_none)
  show "sre_built (snd (sre_build_raising lib e ps)) = (compile_exception lib ps = None \<or> sre_built e)"
    by (rule sre_build_raising_built)
  show "sre_compiled_patterns (sre_build lib e ps)
       = concat (map (\<lambda>p. case re_compile lib p of Inl msg \<Rightarrow> [] | Inr rx \<Rightarrow> [(p, rx)]) ps)"
    by (simp add: sre_build_def sre_compile_loop_closed)
  show "sre_match lib (sre_build lib e ps) t n
       = (case decode_utf8 lib t of
            None \<Rightarrow> Inl UnicodeDecodeError
          | Some s \<Rightarrow> valid_pattern_matches lib s ps)"
    by (rule sre_match_built)
  show "fst (fre_build_raising lib e' ps) = compile_exception lib ps"
    by (rule fre_build_raising_fst)
  show "snd (fre_build_raising lib e' ps) = fre_build lib e' ps" if "compile_exception lib ps = None"
    using that by (simp add: fre_build_raising_none)
  show "snd (fre_build lib e' ps) = compile_diagnostics lib ps"
    by (rule fre_build_closed)
  show "fre_compiled_patterns (fst (fre_build lib e' ps))
       = map (\<lambda>p. case re_compile lib p of Inl msg \<Rightarrow> None | Inr rx \<Rightarrow> Some rx) ps"
    by (rule fre_build_closed)
  show "fre_match eng t pattern_id = []"
    by (rule fre_match_empty)
  show "fre_match_with_python_re lib (fst (fre_build lib e' ps)) tx
       = valid_pattern_python_matches lib tx ps"
    by (rule fre_match_with_python_re_built)
next
  assume a: "re_compile_raises lib ''('' = None \<and> re_compile_raises lib ''foo'' = None
        \<and> re_compile lib ''('' = Inl msg \<and> re_compile lib ''foo'' = Inr rx
        \<and> re_finditer lib rx ''foo'' = Inr [(0, 3, ''foo'')] \<and> decode_utf8 lib ''foo'' = Some ''foo''"
  then have n: "compile_exception lib [''('', ''foo''] = None" by simp
  have s: "sre_build_raising lib sre_cinit [''('', ''foo''] = (None, sre_build lib sre_cinit [''('', ''foo''])"
    using n by (rule sre_build_raising_none)
  have f: "fre_build_raising lib fre_cinit [''('', ''foo''] = (None, fre_build lib fre_cinit [''('', ''foo''])"
    using n by (rule fre_build_raising_none)
  show "fst (sre_build_raising lib sre_cinit [''('', ''foo'']) = None"
    by (simp add: s)
  show "sre_built (snd (sre_build_raising lib sre_cinit [''('', ''foo'']))"
    by (simp add: s sre_build_def)
  show "sre_compiled_patterns (snd (sre_build_raising lib sre_cinit [''('', ''foo''])) = [(''foo'', rx)]"
    using a by (simp add: s sre_build_def)
  show "sre_match lib (snd (sre_build_raising lib sre_cinit [''('', ''foo''])) ''foo'' 0
            = Inr [\<lparr>rm_pattern = ''foo'', rm_start = 0, rm_end = 3, rm_matched = ''foo''\<rparr>]"
    using a by (simp add: s sre_match_built found_records_def)
  show "fst (fre_build_raising lib fre_cinit [''('', ''foo'']) = None"
    by (simp add: f)
  show "snd (snd (fre_build_raising lib fre_cinit [''('', ''foo'']))
            = [''Error compiling pattern (: '' @ msg]"
    using a by (simp add: f fre_build_closed compile_diagnostics_def)
  show "fre_match (fst (snd (fre_build_raising lib fre_cinit [''('', ''foo'']))) ''foo'' (- 1) = []"
    by (rule fre_match_empty)
  show "fre_match_with_python_re lib
              (fst (snd (fre_build_raising lib fre_cinit [''('', ''foo'']))) (Str ''foo'')
            = Inr [\<lparr>pm_type = ''regex'', pm_pattern = ''foo'', pm_start = 0, pm_end = 3,
                    pm_matched_text = Str ''foo''\<rparr>]"
    using a by (simp add: f fre_match_with_python_re_built python_records_def finditer_def)
qed

text \<open>The theorem with the small regex library, in which \<open>(\<close> does not compile.\<close>

theorem invalid_regex_is_dropped_witness:
  "sre_build_raising literal_re sre_cinit [''('', ''foo'']
     = (None, \<lparr>sre_patterns = [''('', ''foo''], sre_compiled_patterns = [(''foo'', ''foo'')],
               sre_built = True\<rparr>)
   \<and> sre_match literal_re (snd (sre_build_raising literal_re sre_cinit [''('', ''foo''])) ''foo'' 0
     = Inr [\<lparr>rm_pattern = ''foo'', rm_start = 0, rm_end = 3, rm_matched = ''foo''\<rparr>]
   \<and> snd (snd (fre_build_raising literal_re fre_cinit [''('', ''foo'']))
     = [''Error compiling pattern (: missing ), unterminated subpattern at position 0'']
   \<and> fre_match_with_python_re literal_re
        (fst (snd (fre_build_raising literal_re fre_cinit [''('', ''foo'']))) (Str ''foo'')
     = Inr [\<lparr>pm_type = ''regex'', pm_pattern = ''foo'', pm_start = 0, pm_end = 3,
             pm_matched_text = Str ''foo''\<rparr>]"
proof -
  have p: "re_compile_raises literal_re ''('' = None \<and> re_compile_raises literal_re ''foo'' = None
        \<and> re_compile literal_re ''('' = Inl ''missing ), unterminated subpattern at position 0''
        \<and> re_compile literal_re ''foo'' = Inr ''foo''
        \<and> re_finditer literal_re ''foo'' ''foo'' = Inr [(0, 3, ''foo'')]
        \<and> decode_utf8 literal_re ''foo'' = Some ''foo''"
    by (simp add: literal_re_def)
  note T = invalid_regex_is_dropped[where lib = literal_re and msg = "''missing ), unterminated subpattern at position 0''"
      and rx = "''foo''"]
  note S = T[THEN conjunct2, THEN conjunct2, THEN conjunct2, THEN conjunct2, THEN conjunct2,
      THEN conjunct2, THEN conjunct2, THEN conjunct2, THEN conjunct2, THEN conjunct2,
      THEN conjunct2, THEN mp, OF p]
  have 1: "sre_build_raising literal_re sre_cinit [''('', ''foo'']
     = (None, \<lparr>sre_patterns = [''('', ''foo''], sre_compiled_patterns = [(''foo'', ''foo'')],
               sre_built = True\<rparr>)"
    using S[THEN conjunct1] S[THEN conjunct2, THEN conjunct1]
      S[THEN conjunct2, THEN conjunct2, THEN conjunct1]
    by (simp add: prod_eq_iff sre_build_raising_def sre_cinit_def split: prod.splits option.splits)
  show ?thesis
    using 1 S by simp
qed

text \<open>
  The engine that prints the diagnostic for \<open>(\<close> scans nothing: its \<open>match\<close> returns the
  empty list on \<open>foo\<close>, where the claim has one match. And \<open>a{99999999999}\<close>, on which
  \<open>re.compile\<close> raises \<open>OverflowError\<close>, is not dropped: the exception leaves the build
  of either engine.
\<close>

theorem diagnostic_engine_scans_nothing:
  "fst (fre_build_raising literal_re fre_cinit [''('', ''foo'']) = None
   \<and> snd (snd (fre_build_raising literal_re fre_cinit [''('', ''foo'']))
     = [''Error compiling pattern (: missing ), unterminated subpattern at position 0'']
   \<and> fre_match (fst (snd (fre_build_raising literal_re fre_cinit [''('', ''foo'']))) ''foo'' (- 1) = []
   \<and> fst (sre_build_raising literal_re sre_cinit [''a{99999999999}'', ''foo''])
     = Some (LibraryError ''the repetition number is too large'')
   \<and> \<not> sre_built (snd (sre_build_raising literal_re sre_cinit [''a{99999999999}'', ''foo'']))
   \<and> fst (fre_build_raising literal_re fre_cinit [''a{99999999999}'', ''foo''])
     = Some (LibraryError ''the repetition number is too large'')"
  by (simp add: fre_build_raising_def sre_build_raising_def literal_re_def fre_cinit_def
      sre_cinit_def fre_match_def)

section \<open>Reset and match again\<close>

text \<open>
  What \<open>match\<close> returns depends on the engines, the text and what the search reads
  through \<open>pattern_bytes\<close>, and on nothing that an earlier call or \<open>reset\<close> changes. So a
  second call after \<open>reset\<close>, reading the same bytes, ends as the first one did, for every
  Matcher and every text: with the same records, or with the same exception or fault.
  \<open>total_matches\<close> is then the number of records of one call, as the \<open>uint32_t\<close> field
  holds it (\<open>u32_id\<close>: the number itself below \<open>2 ^ 32\<close>), and 0 where the call did not
  return. \<open>reset\<close> zeroes \<open>total_matches\<close>, resets the stream buffer and keeps the
  engines. The last conjunct is the first one for \<open>smatcher_match\<close>, the call on a block
  that keeps the patterns.
\<close>

lemma reset_then_match_again:
  "fst (smatcher_match_reading rd lib
          (smatcher_reset (snd (smatcher_match_reading rd lib m t))) t)
      = fst (smatcher_match_reading rd lib m t)
   \<and> fst (smatcher_match_reading rd' lib
          (smatcher_reset (snd (smatcher_match_reading rd lib m t))) t)
      = fst (smatcher_match_reading rd' lib m t)
   \<and> smatcher_get_total_matches
        (snd (smatcher_match_reading rd lib
                (smatcher_reset (snd (smatcher_match_reading rd lib m t))) t))
      = (case fst (smatcher_match_reading rd lib m t) of
           Inl e \<Rightarrow> 0
         | Inr rs \<Rightarrow> u32 (length rs))
   \<and> smatcher_get_total_matches (smatcher_reset m) = 0
   \<and> sm_stream_buffer (smatcher_reset m) = map_option (\<lambda>b. simple_buffer_cinit) (sm_stream_buffer m)
   \<and> sm_ac_automaton (smatcher_reset m) = sm_ac_automaton m
   \<and> sm_regex_engine (smatcher_reset m) = sm_regex_engine m
   \<and> fst (smatcher_match lib (smatcher_reset (snd (smatcher_match lib m t))) t)
      = fst (smatcher_match lib m t)"
proof -
  define m1 where "m1 = snd (smatcher_match_reading rd lib m t)"
  have e: "sm_ac_automaton (smatcher_reset m1) = sm_ac_automaton m"
    "sm_regex_engine (smatcher_reset m1) = sm_regex_engine m"
    by (simp_all add: smatcher_reset_def m1_def smatcher_match_reading_fields)
  have r: "fst (smatcher_match_reading r lib (smatcher_reset m1) t)
      = fst (smatcher_match_reading r lib m t)" for r
    unfolding smatcher_match_reading_result
    by (rule process_chunk_reading_engines) (simp_all add: e)
  have z: "sm_total_matches (smatcher_reset m1) = 0"
    by (simp add: smatcher_reset_def)
  have c: "smatcher_get_total_matches (snd (smatcher_match_reading rd lib (smatcher_reset m1) t))
      = (case fst (smatcher_match_reading rd lib m t) of
           Inl e \<Rightarrow> 0
         | Inr rs \<Rightarrow> u32 (length rs))"
    unfolding smatcher_get_total_matches_def smatcher_match_reading_total r z
    by (simp split: sum.splits)
  have b: "sm_stream_buffer (smatcher_reset m) = map_option (\<lambda>b. simple_buffer_cinit) (sm_stream_buffer m)"
    by (cases "sm_stream_buffer m") (simp_all add: smatcher_reset_def sb_reset_clears)
  have o: "fst (smatcher_match lib (smatcher_reset (snd (smatcher_match lib m t))) t)
      = fst (smatcher_match lib m t)"
    unfolding smatcher_match_result
    by (rule process_chunk_engines) (simp_all add: smatcher_reset_def smatcher_match_fields)
  show ?thesis
    using r[of rd] r[of rd'] c b o unfolding m1_def
    by (simp add: smatcher_reset_def smatcher_get_total_matches_def)
qed

text \<open>The pattern \<open>a\<close> and the text \<open>aa\<close>: two records in either call, and a count of 2.\<close>

lemma reset_then_match_again_example:
  "fst (smatcher_match_reading (intact_reads [''a'']) literal_re
          (smatcher_reset (snd (smatcher_match_reading (intact_reads [''a'']) literal_re
             (smatcher_cinit literal_re (Some [''a'']) None False) ''aa''))) ''aa'')
     = Inr [\<lparr>mr_type = ''ac'', mr_pattern = ''a'', mr_start = 0, mr_end = 1, mr_matched = None\<rparr>,
            \<lparr>mr_type = ''ac'', mr_pattern = ''a'', mr_start = 1, mr_end = 2, mr_matched = None\<rparr>]
   \<and> smatcher_get_total_matches (snd (smatcher_match_reading (intact_reads [''a'']) literal_re
          (smatcher_reset (snd (smatcher_match_reading (intact_reads [''a'']) literal_re
             (smatcher_cinit literal_re (Some [''a'']) None False) ''aa''))) ''aa'')) = 2"
proof -
  let ?m = "smatcher_cinit literal_re (Some [''a'']) None False"
  let ?rs = "[\<lparr>mr_type = ''ac'', mr_pattern = ''a'', mr_start = 0, mr_end = 1, mr_matched = None\<rparr>,
            \<lparr>mr_type = ''ac'', mr_pattern = ''a'', mr_start = 1, mr_end = 2, mr_matched = None\<rparr>]"
  have a: "sm_ac_automaton ?m = Some (sac_build sac_cinit [''a''])"
    by (simp add: smatcher_cinit_def smatcher_build_def Let_def)
  have "\<forall>a. sm_ac_automaton ?m = Some a \<longrightarrow> intact_reads [''a''] = intact_reads (sac_patterns a)
             \<and> (\<forall>p\<in>set (sac_patterns a). one_byte_characters p)"
    by (simp add: a sac_build_def one_byte_characters_def)
  then have "smatcher_match_reading (intact_reads [''a'']) literal_re ?m ''aa''
      = smatcher_match literal_re ?m ''aa''"
    by (rule smatcher_match_reading_intact(1))
  moreover have "fst (smatcher_match literal_re ?m ''aa'') = Inr ?rs"
    by (simp add: search_eval smatcher_eval)
  ultimately have h: "fst (smatcher_match_reading (intact_reads [''a'']) literal_re ?m ''aa'') = Inr ?rs"
    by simp
  note T = reset_then_match_again[of "intact_reads [''a'']" literal_re ?m "''aa''"]
  have 1: "fst (smatcher_match_reading (intact_reads [''a'']) literal_re
          (smatcher_reset (snd (smatcher_match_reading (intact_reads [''a'']) literal_re ?m ''aa''))) ''aa'')
     = Inr ?rs"
    using T[THEN conjunct1] h by simp
  have 2: "smatcher_get_total_matches (snd (smatcher_match_reading (intact_reads [''a'']) literal_re
          (smatcher_reset (snd (smatcher_match_reading (intact_reads [''a'']) literal_re ?m ''aa''))) ''aa''))
     = 2"
    using T[THEN conjunct2, THEN conjunct2, THEN conjunct1] h by (simp add: u32_def)
  show ?thesis using 1 2 by (rule conjI)
qed

text \<open>
  C8. \<open>match(T)\<close>, then \<open>reset()\<close>, then \<open>match(T)\<close>, for every text and every built
  Matcher: the second call returns the records of the first, and \<open>total_matches\<close> is then
  the number of records of one call; \<open>reset\<close> zeroes \<open>total_matches\<close> and clears the
  stream buffer, and keeps the engines.

  The code does this wherever the first call returns (\<open>reset_then_match_again\<close>). It
  does not return for every text: where a pattern is two bytes longer than the text, the
  loop bound of the search wraps as in C1. With the pattern \<open>ab\<close> and the empty text the
  first \<open>match\<close> reads beyond the bytes object at the start position 1, and so does the
  second one after \<open>reset\<close>. Neither call yields a list of records, where the claim has
  the empty list twice.
\<close>

theorem short_text_faults_before_and_after_reset:
  "fst (smatcher_match literal_re (smatcher_cinit literal_re (Some [''ab'']) None False) [])
     = Inl OutOfBounds
   \<and> fst (smatcher_match literal_re
            (smatcher_reset
               (snd (smatcher_match literal_re
                       (smatcher_cinit literal_re (Some [''ab'']) None False) []))) [])
     = Inl OutOfBounds
   \<and> occurrence_records [] ''ab'' = []"
  by (simp add: search_eval smatcher_eval smatcher_reset_def spec_eval)

section \<open>\<open>match\<close> of the Matcher over the circular buffer\<close>









end
